theory Spec2Isabelle
  imports Main
begin

section \<open>The height map of the virtualized tree view\<close>

text \<open>
  A shallow embedding of the class \<open>HeightMap\<close> of \<open>treeViewModel.ts\<close>. JavaScript numbers
  are modelled as \<open>int\<close> (heights, offsets and positions) and as \<open>nat\<close> (slots); the object
  \<open>indexes\<close>, used as a dictionary, is a map from identities to slots (an identity is any
  string an object stores as a key of its own, so not \<open>__proto__\<close>). An iterator is the list
  of the values it still has to yield. Every mutating operation takes the state and returns
  an outcome: the value returned, the state after the call, the observer hooks called (in
  call order), the lines written to the console and the part of the input iterator that was
  not consumed. The sums and differences of the operations are exact in the first
  definitions; the definitions with the suffix \<open>_fl\<close> round them as double arithmetic
  does, and the offsets the mutations leave (C1 and C7) are stated of these.
\<close>

subsection \<open>Data\<close>

text \<open>
  \<open>Item\<close> is declared in the tree model. The height map reads two things of it: its
  identity (the field \<open>id\<close>, here \<open>id_str\<close>) and the result of \<open>getHeight()\<close> at the time
  of the call.
\<close>

record item =
  id_str :: string
  getHeight :: int

text \<open>\<open>IViewItem\<close>; the field \<open>top\<close> is named \<open>top_px\<close>.\<close>

record view_item =
  model :: item
  top_px :: int
  height :: int

text \<open>The two private fields of \<open>HeightMap\<close>.\<close>

record height_map =
  heightMap :: "view_item list"
  indexes :: "string \<rightharpoonup> nat"

text \<open>
  The observers: the event \<open>viewItem:create\<close> and the three overridable hooks
  \<open>onInsertItem\<close>, \<open>onRemoveItem\<close> and \<open>onRefreshItem\<close> (with its \<open>needsRender\<close> flag).
  A hook is recorded with the row as it is at the time of the call.
\<close>

datatype event =
  ViewItemCreate item
  | OnInsertItem view_item
  | OnRemoveItem view_item
  | OnRefreshItem view_item bool

text \<open>Reading a field of \<open>undefined\<close> throws a \<open>TypeError\<close>.\<close>

datatype error = TypeError

record ('r, 'i) outcome =
  returned :: 'r
  hm :: height_map
  emitted :: "event list"
  console :: "string list"
  unread :: "'i list"

text \<open>The constructor.\<close>

definition new_HeightMap :: height_map where
  "new_HeightMap = \<lparr>heightMap = [], indexes = Map.empty\<rparr>"

text \<open>
  Modelled from the spec: \<open>createViewItem\<close> of the base class only throws
  \<open>not implemented\<close>, and the subclass that overrides it is not among the sources. The spec
  has a row record created per item, with the item's identity and the item's height as its
  extent; its offset is assigned by the insertion.
\<close>

definition createViewItem :: "item \<Rightarrow> view_item" where
  "createViewItem it = \<lparr>model = it, top_px = 0, height = getHeight it\<rparr>"

text \<open>
  \<open>Array.prototype.splice(start, deleteCount, ...items)\<close> for a start and a count that are
  not negative: a start beyond the end is the end, a count beyond the end stops there.
\<close>

definition splice :: "nat \<Rightarrow> nat \<Rightarrow> 'a list \<Rightarrow> 'a list \<Rightarrow> 'a list" where
  "splice start deleteCount items xs = take start xs @ items @ drop (start + deleteCount) xs"

subsection \<open>Queries\<close>

definition getTotalHeight :: "height_map \<Rightarrow> int" where
  "getTotalHeight h =
     (case heightMap h of
        [] \<Rightarrow> 0
      | _ # _ \<Rightarrow> top_px (last (heightMap h)) + height (last (heightMap h)))"

definition itemsCount :: "height_map \<Rightarrow> nat" where
  "itemsCount h = length (heightMap h)"

text \<open>
  The binary search of \<open>indexAt\<close>, with the loop variables \<open>left\<close> and \<open>right\<close> as
  arguments. \<open>center\<close> lies below \<open>right\<close>, which never exceeds the number of rows.
\<close>

function indexAt_loop :: "view_item list \<Rightarrow> int \<Rightarrow> nat \<Rightarrow> nat \<Rightarrow> nat" where
  "indexAt_loop rows position left right =
     (if left < right then
        (let center = (left + right) div 2; item = rows ! center in
         if position < top_px item then indexAt_loop rows position left center
         else if position \<ge> top_px item + height item then
           (if left = center then length rows
            else indexAt_loop rows position center right)
         else center)
      else length rows)"
  by pat_completeness auto
termination
  by (relation "measure (\<lambda>(rows, position, left, right). right - left)") auto

declare indexAt_loop.simps [simp del]

definition indexAt :: "height_map \<Rightarrow> int \<Rightarrow> nat" where
  "indexAt h position = indexAt_loop (heightMap h) position 0 (length (heightMap h))"


text \<open>
  \<open>itemAt\<close> reads \<open>.model.id\<close> of \<open>heightMap[indexAt(position)]\<close> with no check: past the
  end the element is \<open>undefined\<close> and the read throws.
\<close>

definition itemAt :: "height_map \<Rightarrow> int \<Rightarrow> error + string" where
  "itemAt h position =
     (let i = indexAt h position in
      if i < length (heightMap h) then Inr (id_str (model (heightMap h ! i)))
      else Inl TypeError)"

subsection \<open>Insertion\<close>

text \<open>
  The first block of \<open>onInsertItems\<close>: the slot \<open>i\<close> and the offset \<open>totalSize\<close> where the
  new rows start, or nothing when the anchor has no row (\<open>indexes[afterItemId]\<close> is
  \<open>undefined\<close>, or names a slot that holds no row).
\<close>

definition insert_anchor :: "height_map \<Rightarrow> string option \<Rightarrow> (nat \<times> int) option" where
  "insert_anchor h afterItemId =
     (case afterItemId of
        None \<Rightarrow> Some (0, 0)
      | Some a \<Rightarrow>
          (case indexes h a of
             None \<Rightarrow> None
           | Some k \<Rightarrow>
               if k < length (heightMap h)
               then Some (Suc k, top_px (heightMap h ! k) + height (heightMap h ! k))
               else None))"

text \<open>The \<open>while\<close> loop over the iterator: an \<open>Item\<close> is an object, so the loop ends with the input.\<close>

fun insert_scan ::
  "item list \<Rightarrow> int \<Rightarrow> nat \<Rightarrow> (string \<rightharpoonup> nat) \<Rightarrow> view_item list \<Rightarrow> int \<Rightarrow> event list
   \<Rightarrow> nat \<times> (string \<rightharpoonup> nat) \<times> view_item list \<times> int \<times> event list" where
  "insert_scan [] totalSize i idx itemsToInsert sizeDiff ev =
     (i, idx, itemsToInsert, sizeDiff, ev)"
| "insert_scan (it # iterator) totalSize i idx itemsToInsert sizeDiff ev =
     (let viewItem = (createViewItem it)\<lparr>top_px := totalSize + sizeDiff\<rparr> in
      insert_scan iterator totalSize (Suc i) (idx(id_str it \<mapsto> i))
        (itemsToInsert @ [viewItem]) (sizeDiff + height viewItem)
        (ev @ [ViewItemCreate (model viewItem)]))"

text \<open>One round of the first \<open>for\<close> loop: the row at slot \<open>j\<close> moves and is indexed again.\<close>

definition insert_shift ::
  "int \<Rightarrow> nat \<Rightarrow> view_item list \<times> (string \<rightharpoonup> nat) \<Rightarrow> view_item list \<times> (string \<rightharpoonup> nat)" where
  "insert_shift sizeDiff j = (\<lambda>(rows, idx).
     (let viewItem = (rows ! j)\<lparr>top_px := top_px (rows ! j) + sizeDiff\<rparr> in
      (rows[j := viewItem], idx(id_str (model viewItem) \<mapsto> j))))"

definition onInsertItems ::
  "item list \<Rightarrow> string option \<Rightarrow> height_map \<Rightarrow> (int option, item) outcome" where
  "onInsertItems iterator afterItemId h =
     (case insert_anchor h afterItemId of
        None \<Rightarrow>
          \<lparr>returned = None, hm = h, emitted = [],
           console = [''view item doesnt exist''], unread = iterator\<rparr>
      | Some (i0, totalSize) \<Rightarrow>
          (case insert_scan iterator totalSize i0 (indexes h) [] 0 [] of
             (i, idx, itemsToInsert, sizeDiff, ev) \<Rightarrow>
               (let rows1 = splice i0 0 itemsToInsert (heightMap h) in
                (case fold (insert_shift sizeDiff) [i..<length rows1] (rows1, idx) of
                   (rows2, idx2) \<Rightarrow>
                     \<lparr>returned = Some sizeDiff,
                      hm = \<lparr>heightMap = rows2, indexes = idx2\<rparr>,
                      emitted = ev
                        @ map (\<lambda>j. OnInsertItem (itemsToInsert ! j))
                            (rev [0..<length itemsToInsert])
                        @ map (\<lambda>j. OnRefreshItem (rows2 ! j) False)
                            (rev [i..<length rows2]),
                      console = [], unread = []\<rparr>))))"

subsection \<open>Removal\<close>

text \<open>
  The \<open>while\<close> loop of \<open>onRemoveItems\<close>. The iterator yields strings, and the loop ends at
  the first falsy one: at the end of the input, and also at an empty identity. The first
  component of the result tells whether the loop ended (\<open>True\<close>) or met an identity with no
  row and returned (\<open>False\<close>). \<open>startIndex\<close> and \<open>i\<close> are both set by the first round, so they
  are one optional pair.
\<close>

fun remove_scan ::
  "string list \<Rightarrow> view_item list \<Rightarrow> (string \<rightharpoonup> nat) \<Rightarrow> int \<Rightarrow> (nat \<times> nat) option \<Rightarrow> event list
   \<Rightarrow> bool \<times> (string \<rightharpoonup> nat) \<times> int \<times> (nat \<times> nat) option \<times> event list \<times> string list" where
  "remove_scan [] rows idx sizeDiff run ev = (True, idx, sizeDiff, run, ev, [])"
| "remove_scan (itemId # iterator) rows idx sizeDiff run ev =
     (if itemId = [] then (True, idx, sizeDiff, run, ev, iterator)
      else
        (case idx itemId of
           None \<Rightarrow> (False, idx, sizeDiff, run, ev, iterator)
         | Some i \<Rightarrow>
             if i < length rows then
               (let viewItem = rows ! i in
                remove_scan iterator rows (idx(itemId := None)) (sizeDiff - height viewItem)
                  (Some (case run of None \<Rightarrow> i | Some (startIndex, _) \<Rightarrow> startIndex, i))
                  (ev @ [OnRemoveItem viewItem]))
             else (False, idx, sizeDiff, run, ev, iterator)))"

text \<open>One round of the final \<open>for\<close> loop: the row moves, is indexed again and is announced.\<close>

definition remove_shift ::
  "int \<Rightarrow> nat \<Rightarrow> view_item list \<times> (string \<rightharpoonup> nat) \<times> event list
   \<Rightarrow> view_item list \<times> (string \<rightharpoonup> nat) \<times> event list" where
  "remove_shift sizeDiff j = (\<lambda>(rows, idx, ev).
     (let viewItem = (rows ! j)\<lparr>top_px := top_px (rows ! j) + sizeDiff\<rparr> in
      (rows[j := viewItem], idx(id_str (model viewItem) \<mapsto> j),
       ev @ [OnRefreshItem viewItem False])))"

text \<open>
  \<open>onRemoveItems\<close>. When \<open>sizeDiff\<close> is not zero the loop has run, so the pair is set; the
  branch for an unset pair is never taken (lemma \<open>remove_scan_run\<close>).
\<close>

definition onRemoveItems :: "string list \<Rightarrow> height_map \<Rightarrow> (unit, string) outcome" where
  "onRemoveItems iterator h =
     (case remove_scan iterator (heightMap h) (indexes h) 0 None [] of
        (completed, idx, sizeDiff, run, ev, rest) \<Rightarrow>
          if \<not> completed then
            \<lparr>returned = (), hm = h\<lparr>indexes := idx\<rparr>, emitted = ev,
             console = [''view item doesnt exist''], unread = rest\<rparr>
          else if sizeDiff = 0 then
            \<lparr>returned = (), hm = h\<lparr>indexes := idx\<rparr>, emitted = ev,
             console = [], unread = rest\<rparr>
          else
            (case run of
               None \<Rightarrow>
                 \<lparr>returned = (), hm = h\<lparr>indexes := idx\<rparr>, emitted = ev,
                  console = [], unread = rest\<rparr>
             | Some (startIndex, i) \<Rightarrow>
                 (let rows1 = splice startIndex (Suc i - startIndex) [] (heightMap h) in
                  (case fold (remove_shift sizeDiff) [startIndex..<length rows1]
                          (rows1, idx, ev) of
                     (rows2, idx2, ev2) \<Rightarrow>
                       \<lparr>returned = (), hm = \<lparr>heightMap = rows2, indexes = idx2\<rparr>,
                        emitted = ev2, console = [], unread = rest\<rparr>))))"

subsection \<open>Refresh\<close>

text \<open>One round of a catch-up loop: the row at slot \<open>j\<close> moves and is announced.\<close>

definition refresh_shift ::
  "int \<Rightarrow> nat \<Rightarrow> view_item list \<times> event list \<Rightarrow> view_item list \<times> event list" where
  "refresh_shift cummDiff j = (\<lambda>(rows, ev).
     (let viewItem = (rows ! j)\<lparr>top_px := top_px (rows ! j) + cummDiff\<rparr> in
      (rows[j := viewItem], ev @ [OnRefreshItem viewItem False])))"

text \<open>
  The loop \<open>for (; cummDiff !== 0 && j !== null && j < bound; j++)\<close>, as far as the rows
  reach; \<open>j\<close> is \<open>null\<close> until the first item has been refreshed.
\<close>

definition refresh_catchup ::
  "int \<Rightarrow> nat option \<Rightarrow> nat \<Rightarrow> view_item list \<times> event list \<Rightarrow> view_item list \<times> event list" where
  "refresh_catchup cummDiff j bound s =
     (case j of
        None \<Rightarrow> s
      | Some j0 \<Rightarrow>
          if cummDiff \<noteq> 0 then fold (refresh_shift cummDiff) [j0..<min bound (length (fst s))] s
          else s)"

text \<open>
  The \<open>while\<close> loop of \<open>onRefreshItems\<close>. There is no guard on this path: an item with no
  index entry, or with an entry that names no row, makes the loop read a field of
  \<open>undefined\<close>, and the call throws with the rows as they are then (\<open>Inl\<close>).
\<close>

fun refresh_scan ::
  "item list \<Rightarrow> (string \<rightharpoonup> nat) \<Rightarrow> view_item list \<Rightarrow> nat option \<Rightarrow> int \<Rightarrow> event list
   \<Rightarrow> (view_item list \<times> event list \<times> item list)
     + (view_item list \<times> nat option \<times> int \<times> event list)" where
  "refresh_scan [] idx rows j cummDiff ev = Inr (rows, j, cummDiff, ev)"
| "refresh_scan (it # iterator) idx rows j cummDiff ev =
     (case idx (id_str it) of
        None \<Rightarrow> Inl (rows, ev, iterator)
      | Some i \<Rightarrow>
          (case refresh_catchup cummDiff j i (rows, ev) of
             (rows1, ev1) \<Rightarrow>
               if i < length rows1 then
                 (let viewItem = rows1 ! i;
                      newHeight = getHeight it;
                      viewItem' = viewItem\<lparr>top_px := top_px viewItem + cummDiff,
                                           height := newHeight\<rparr>
                  in refresh_scan iterator idx (rows1[i := viewItem']) (Some (Suc i))
                       (cummDiff + (newHeight - height viewItem))
                       (ev1 @ [OnRefreshItem viewItem' True]))
               else Inl (rows1, ev1, iterator)))"

definition onRefreshItems :: "item list \<Rightarrow> height_map \<Rightarrow> (error + unit, item) outcome" where
  "onRefreshItems iterator h =
     (case refresh_scan iterator (indexes h) (heightMap h) None 0 [] of
        Inl (rows, ev, rest) \<Rightarrow>
          \<lparr>returned = Inl TypeError, hm = h\<lparr>heightMap := rows\<rparr>, emitted = ev,
           console = [], unread = rest\<rparr>
      | Inr (rows, j, cummDiff, ev) \<Rightarrow>
          (case refresh_catchup cummDiff j (length rows) (rows, ev) of
             (rows2, ev2) \<Rightarrow>
               \<lparr>returned = Inr (), hm = h\<lparr>heightMap := rows2\<rparr>, emitted = ev2,
                console = [], unread = []\<rparr>))"

subsection \<open>The invariants and the states used as examples\<close>

text \<open>The half-open window \<open>[top, top + height)\<close> of a row.\<close>

definition in_window :: "view_item \<Rightarrow> int \<Rightarrow> bool" where
  "in_window v p = (top_px v \<le> p \<and> p < top_px v + height v)"

text \<open>
  Contiguity: the first row starts at \<open>b\<close> and every row starts where the row before it
  ends. Lemma \<open>contiguous_from_nth_iff\<close> gives the same by slots.
\<close>

fun contiguous_from :: "int \<Rightarrow> view_item list \<Rightarrow> bool" where
  "contiguous_from b [] = True"
| "contiguous_from b (v # vs) = (top_px v = b \<and> contiguous_from (b + height v) vs)"

definition contiguous :: "height_map \<Rightarrow> bool" where
  "contiguous h = contiguous_from 0 (heightMap h)"

definition extents_nonneg :: "height_map \<Rightarrow> bool" where
  "extents_nonneg h = list_all (\<lambda>v. 0 \<le> height v) (heightMap h)"

text \<open>Scenario A of the spec: three rows of heights 10, 20 and 30.\<close>

definition scenario_A :: height_map where
  "scenario_A =
     \<lparr>heightMap =
        [\<lparr>model = \<lparr>id_str = ''a'', getHeight = 10\<rparr>, top_px = 0, height = 10\<rparr>,
         \<lparr>model = \<lparr>id_str = ''b'', getHeight = 20\<rparr>, top_px = 10, height = 20\<rparr>,
         \<lparr>model = \<lparr>id_str = ''c'', getHeight = 30\<rparr>, top_px = 30, height = 30\<rparr>],
      indexes = [''a'' \<mapsto> 0, ''b'' \<mapsto> 1, ''c'' \<mapsto> 2]\<rparr>"

text \<open>
  Closed forms of the loops, used to state what the operations compute: a row moved by
  \<open>d\<close>; the identity of a row; the index after the identities \<open>xs\<close> have been given the
  slots \<open>n, n + 1, \<dots>\<close> in this order (a later entry for the same identity replaces an
  earlier one); the rows created for a run of items, the first at offset \<open>b\<close>; and the sum
  of the heights of a run of items.
\<close>

definition shifted :: "int \<Rightarrow> view_item \<Rightarrow> view_item" where
  "shifted d v = v\<lparr>top_px := top_px v + d\<rparr>"

definition row_id :: "view_item \<Rightarrow> string" where
  "row_id v = id_str (model v)"

fun index_ids :: "nat \<Rightarrow> string list \<Rightarrow> (string \<rightharpoonup> nat) \<Rightarrow> (string \<rightharpoonup> nat)" where
  "index_ids n [] m = m"
| "index_ids n (x # xs) m = index_ids (Suc n) xs (m(x \<mapsto> n))"

fun new_rows :: "int \<Rightarrow> item list \<Rightarrow> view_item list" where
  "new_rows b [] = []"
| "new_rows b (it # its) =
     \<lparr>model = it, top_px = b, height = getHeight it\<rparr> # new_rows (b + getHeight it) its"

definition total_height :: "item list \<Rightarrow> int" where
  "total_height its = sum_list (map getHeight its)"

text \<open>
  The pair (\<open>startIndex\<close>, \<open>i\<close>) of the removal loop after it has met the slots \<open>ks\<close>.
\<close>

fun run_after :: "(nat \<times> nat) option \<Rightarrow> nat list \<Rightarrow> (nat \<times> nat) option" where
  "run_after run [] = run"
| "run_after run (k # ks) =
     run_after (Some (case run of None \<Rightarrow> k | Some (startIndex, _) \<Rightarrow> startIndex, k)) ks"

text \<open>
  The invariant of the refresh loop, with \<open>lower j\<close> the slot \<open>j\<close> stands for (0 while it is
  \<open>null\<close>): \<open>j\<close> is \<open>null\<close> only while \<open>cummDiff\<close> is zero; the rows below \<open>j\<close> are
  contiguous from 0, and the rows from \<open>j\<close> on are contiguous among themselves and lie
  \<open>cummDiff\<close> before their place.
\<close>

definition lower :: "nat option \<Rightarrow> nat" where
  "lower j = (case j of None \<Rightarrow> 0 | Some j0 \<Rightarrow> j0)"

definition refresh_inv :: "view_item list \<Rightarrow> nat option \<Rightarrow> int \<Rightarrow> bool" where
  "refresh_inv rows j c \<longleftrightarrow>
     (j = None \<longrightarrow> c = 0) \<and> lower j \<le> length rows \<and>
     contiguous_from 0 (take (lower j) rows) \<and>
     contiguous_from (sum_list (map height (take (lower j) rows)) - c) (drop (lower j) rows)"

text \<open>
  The index is valid when every entry names a slot that holds a row of that identity. It
  is weaker than I2 of the spec, which also wants an entry for every row.
\<close>

definition index_valid :: "height_map \<Rightarrow> bool" where
  "index_valid h \<longleftrightarrow>
     (\<forall>x k. indexes h x = Some k \<longrightarrow> k < length (heightMap h) \<and> row_id (heightMap h ! k) = x)"

text \<open>
  I2 of the spec: the index maps the identity of every row to the row's slot, and its keys
  are exactly the identities of the rows.
\<close>

definition index_consistent :: "height_map \<Rightarrow> bool" where
  "index_consistent h \<longleftrightarrow>
     (\<forall>k<length (heightMap h). indexes h (row_id (heightMap h ! k)) = Some k) \<and>
     dom (indexes h) = row_id ` set (heightMap h)"

text \<open>
  The preconditions of the three mutations, in the reading that keeps the rows contiguous:
  the anchor of an insertion is none or has an index entry; the identities given to a removal have the index
  entries \<open>s, s + 1, \<dots>\<close> in input order, for some slot \<open>s\<close>; the items given to a refresh
  have index entries, and these are strictly ascending in input order (no item twice).
\<close>

definition anchor_present :: "height_map \<Rightarrow> string option \<Rightarrow> bool" where
  "anchor_present h afterItemId =
     (case afterItemId of None \<Rightarrow> True | Some a \<Rightarrow> indexes h a \<noteq> None)"

definition contiguous_run :: "height_map \<Rightarrow> string list \<Rightarrow> bool" where
  "contiguous_run h xs =
     (case xs of
        [] \<Rightarrow> True
      | x # _ \<Rightarrow>
          (case indexes h x of
             None \<Rightarrow> False
           | Some s \<Rightarrow> map (indexes h) xs = map Some [s..<s + length xs]))"

definition ascending_present :: "height_map \<Rightarrow> item list \<Rightarrow> bool" where
  "ascending_present h its \<longleftrightarrow>
     list_all (\<lambda>it. indexes h (id_str it) \<noteq> None) its \<and>
     sorted_wrt (<) (map (\<lambda>it. the (indexes h (id_str it))) its)"

text \<open>
  The states the three mutations reach from the state of the constructor, each called
  within its precondition.
\<close>

inductive reachable :: "height_map \<Rightarrow> bool" where
  initial: "reachable new_HeightMap"
| insert: "reachable h \<Longrightarrow> anchor_present h afterItemId \<Longrightarrow>
           reachable (hm (onInsertItems its afterItemId h))"
| remove: "reachable h \<Longrightarrow> contiguous_run h xs \<Longrightarrow> reachable (hm (onRemoveItems xs h))"
| refresh: "reachable h \<Longrightarrow> ascending_present h its \<Longrightarrow>
            reachable (hm (onRefreshItems its h))"

text \<open>
  The trace of a successful insertion as claim C8 words it, to be compared with the trace
  \<open>onInsertItems\<close> emits: one \<open>viewItem:create\<close> per item in input order, then one
  \<open>onRefreshItem\<close> per row behind the new rows, in ascending slot order.
\<close>

definition claimed_insert_trace :: "item list \<Rightarrow> string option \<Rightarrow> height_map \<Rightarrow> event list" where
  "claimed_insert_trace its afterItemId h =
     (case insert_anchor h afterItemId of
        None \<Rightarrow> []
      | Some (i, totalSize) \<Rightarrow>
          (let rows2 = heightMap (hm (onInsertItems its afterItemId h)) in
           map ViewItemCreate its
           @ map (\<lambda>j. OnRefreshItem (rows2 ! j) False) [i + length its..<length rows2]))"

definition is_refreshed :: "event \<Rightarrow> bool" where
  "is_refreshed e = (case e of OnRefreshItem v b \<Rightarrow> True | _ \<Rightarrow> False)"

text \<open>Items and a state used as examples.\<close>

definition item_a :: item where
  "item_a = \<lparr>id_str = ''a'', getHeight = 10\<rparr>"

definition item_b :: item where
  "item_b = \<lparr>id_str = ''b'', getHeight = 20\<rparr>"

definition item_c :: item where
  "item_c = \<lparr>id_str = ''c'', getHeight = 30\<rparr>"

definition item_x :: item where
  "item_x = \<lparr>id_str = ''x'', getHeight = 5\<rparr>"

definition item_b5 :: item where
  "item_b5 = \<lparr>id_str = ''b'', getHeight = 5\<rparr>"

definition item_a20 :: item where
  "item_a20 = \<lparr>id_str = ''a'', getHeight = 20\<rparr>"

definition item_z :: item where
  "item_z = \<lparr>id_str = ''z'', getHeight = 0\<rparr>"

definition zero_row_state :: height_map where
  "zero_row_state =
     \<lparr>heightMap = [\<lparr>model = item_z, top_px = 0, height = 0\<rparr>], indexes = [''z'' \<mapsto> 0]\<rparr>"

text \<open>Scenario B (the row \<open>b\<close> refreshed to height 5) and Scenario C (\<open>a\<close> and \<open>b\<close> removed).\<close>

definition scenario_B :: height_map where
  "scenario_B =
     \<lparr>heightMap =
        [\<lparr>model = \<lparr>id_str = ''a'', getHeight = 10\<rparr>, top_px = 0, height = 10\<rparr>,
         \<lparr>model = \<lparr>id_str = ''b'', getHeight = 20\<rparr>, top_px = 10, height = 5\<rparr>,
         \<lparr>model = \<lparr>id_str = ''c'', getHeight = 30\<rparr>, top_px = 15, height = 30\<rparr>],
      indexes = [''a'' \<mapsto> 0, ''b'' \<mapsto> 1, ''c'' \<mapsto> 2]\<rparr>"

definition scenario_C :: height_map where
  "scenario_C =
     \<lparr>heightMap = [\<lparr>model = \<lparr>id_str = ''c'', getHeight = 30\<rparr>, top_px = 0, height = 30\<rparr>],
      indexes = [''c'' \<mapsto> 0]\<rparr>"

subsection \<open>Double arithmetic on whole numbers\<close>

text \<open>
  A JavaScript number is an IEEE-754 double. Every whole number of magnitude up to
  \<open>2 ^ 53\<close> is a double (\<open>exact\<close>), and the sum or the difference of two doubles is the
  double nearest to the true result, the one with the even significand when two are equally
  near. On whole numbers this is \<open>fl\<close>: a result of magnitude up to \<open>2 ^ 53\<close> is kept;
  beyond, the doubles are the multiples of the unit \<open>ulp_of\<close> (the least power of two \<open>u\<close>
  such that the magnitude is below \<open>2 ^ 53 * u\<close>), and the result goes to the nearest
  multiple of the unit, half-way to the even one. Heights with a fractional part are not
  whole numbers and are outside this model; so is the overflow to \<open>Infinity\<close>, from the
  magnitude \<open>2 ^ 1024\<close>, which no statement below comes near.
\<close>

definition exact :: "int \<Rightarrow> bool" where
  "exact n \<longleftrightarrow> - (2 ^ 53) \<le> n \<and> n \<le> 2 ^ 53"

function ulp_of :: "nat \<Rightarrow> nat \<Rightarrow> nat" where
  "ulp_of a u = (if u = 0 \<or> a < 2 ^ 53 * u then u else ulp_of a (2 * u))"
  by pat_completeness auto
termination
  by (relation "measure (\<lambda>(a, u). Suc a - 2 ^ 53 * u)") auto

declare ulp_of.simps [simp del]

definition fl :: "int \<Rightarrow> int" where
  "fl n =
     (if exact n then n
      else
        (let a = nat \<bar>n\<bar>; u = ulp_of a 1; q = a div u; r = a mod u;
             m = (if 2 * r < u then q else if u < 2 * r then q + 1
                  else if even q then q else q + 1)
         in sgn n * int (m * u)))"

text \<open>
  The three mutations once more, with every sum and difference rounded where the source
  computes it: \<open>viewItem.top + viewItem.height\<close>, \<open>totalSize + sizeDiff\<close>,
  \<open>sizeDiff += viewItem.height\<close> and \<open>viewItem.top += sizeDiff\<close> in \<open>onInsertItems\<close>;
  \<open>sizeDiff -= viewItem.height\<close> and \<open>viewItem.top += sizeDiff\<close> in \<open>onRemoveItems\<close>;
  \<open>viewItem.top += cummDiff\<close> (in the catch-up loop, at the item and in the final loop)
  and \<open>cummDiff += newHeight - viewItem.height\<close> (a difference, then a sum) in
  \<open>onRefreshItems\<close>. Nothing else differs from the definitions above.
\<close>

definition insert_anchor_fl :: "height_map \<Rightarrow> string option \<Rightarrow> (nat \<times> int) option" where
  "insert_anchor_fl h afterItemId =
     (case afterItemId of
        None \<Rightarrow> Some (0, 0)
      | Some a \<Rightarrow>
          (case indexes h a of
             None \<Rightarrow> None
           | Some k \<Rightarrow>
               if k < length (heightMap h)
               then Some (Suc k, fl (top_px (heightMap h ! k) + height (heightMap h ! k)))
               else None))"

fun insert_scan_fl ::
  "item list \<Rightarrow> int \<Rightarrow> nat \<Rightarrow> (string \<rightharpoonup> nat) \<Rightarrow> view_item list \<Rightarrow> int \<Rightarrow> event list
   \<Rightarrow> nat \<times> (string \<rightharpoonup> nat) \<times> view_item list \<times> int \<times> event list" where
  "insert_scan_fl [] totalSize i idx itemsToInsert sizeDiff ev =
     (i, idx, itemsToInsert, sizeDiff, ev)"
| "insert_scan_fl (it # iterator) totalSize i idx itemsToInsert sizeDiff ev =
     (let viewItem = (createViewItem it)\<lparr>top_px := fl (totalSize + sizeDiff)\<rparr> in
      insert_scan_fl iterator totalSize (Suc i) (idx(id_str it \<mapsto> i))
        (itemsToInsert @ [viewItem]) (fl (sizeDiff + height viewItem))
        (ev @ [ViewItemCreate (model viewItem)]))"

definition insert_shift_fl ::
  "int \<Rightarrow> nat \<Rightarrow> view_item list \<times> (string \<rightharpoonup> nat) \<Rightarrow> view_item list \<times> (string \<rightharpoonup> nat)" where
  "insert_shift_fl sizeDiff j = (\<lambda>(rows, idx).
     (let viewItem = (rows ! j)\<lparr>top_px := fl (top_px (rows ! j) + sizeDiff)\<rparr> in
      (rows[j := viewItem], idx(id_str (model viewItem) \<mapsto> j))))"

definition onInsertItems_fl ::
  "item list \<Rightarrow> string option \<Rightarrow> height_map \<Rightarrow> (int option, item) outcome" where
  "onInsertItems_fl iterator afterItemId h =
     (case insert_anchor_fl h afterItemId of
        None \<Rightarrow>
          \<lparr>returned = None, hm = h, emitted = [],
           console = [''view item doesnt exist''], unread = iterator\<rparr>
      | Some (i0, totalSize) \<Rightarrow>
          (case insert_scan_fl iterator totalSize i0 (indexes h) [] 0 [] of
             (i, idx, itemsToInsert, sizeDiff, ev) \<Rightarrow>
               (let rows1 = splice i0 0 itemsToInsert (heightMap h) in
                (case fold (insert_shift_fl sizeDiff) [i..<length rows1] (rows1, idx) of
                   (rows2, idx2) \<Rightarrow>
                     \<lparr>returned = Some sizeDiff,
                      hm = \<lparr>heightMap = rows2, indexes = idx2\<rparr>,
                      emitted = ev
                        @ map (\<lambda>j. OnInsertItem (itemsToInsert ! j))
                            (rev [0..<length itemsToInsert])
                        @ map (\<lambda>j. OnRefreshItem (rows2 ! j) False)
                            (rev [i..<length rows2]),
                      console = [], unread = []\<rparr>))))"

fun remove_scan_fl ::
  "string list \<Rightarrow> view_item list \<Rightarrow> (string \<rightharpoonup> nat) \<Rightarrow> int \<Rightarrow> (nat \<times> nat) option \<Rightarrow> event list
   \<Rightarrow> bool \<times> (string \<rightharpoonup> nat) \<times> int \<times> (nat \<times> nat) option \<times> event list \<times> string list" where
  "remove_scan_fl [] rows idx sizeDiff run ev = (True, idx, sizeDiff, run, ev, [])"
| "remove_scan_fl (itemId # iterator) rows idx sizeDiff run ev =
     (if itemId = [] then (True, idx, sizeDiff, run, ev, iterator)
      else
        (case idx itemId of
           None \<Rightarrow> (False, idx, sizeDiff, run, ev, iterator)
         | Some i \<Rightarrow>
             if i < length rows then
               (let viewItem = rows ! i in
                remove_scan_fl iterator rows (idx(itemId := None))
                  (fl (sizeDiff - height viewItem))
                  (Some (case run of None \<Rightarrow> i | Some (startIndex, _) \<Rightarrow> startIndex, i))
                  (ev @ [OnRemoveItem viewItem]))
             else (False, idx, sizeDiff, run, ev, iterator)))"

definition remove_shift_fl ::
  "int \<Rightarrow> nat \<Rightarrow> view_item list \<times> (string \<rightharpoonup> nat) \<times> event list
   \<Rightarrow> view_item list \<times> (string \<rightharpoonup> nat) \<times> event list" where
  "remove_shift_fl sizeDiff j = (\<lambda>(rows, idx, ev).
     (let viewItem = (rows ! j)\<lparr>top_px := fl (top_px (rows ! j) + sizeDiff)\<rparr> in
      (rows[j := viewItem], idx(id_str (model viewItem) \<mapsto> j),
       ev @ [OnRefreshItem viewItem False])))"

definition onRemoveItems_fl :: "string list \<Rightarrow> height_map \<Rightarrow> (unit, string) outcome" where
  "onRemoveItems_fl iterator h =
     (case remove_scan_fl iterator (heightMap h) (indexes h) 0 None [] of
        (completed, idx, sizeDiff, run, ev, rest) \<Rightarrow>
          if \<not> completed then
            \<lparr>returned = (), hm = h\<lparr>indexes := idx\<rparr>, emitted = ev,
             console = [''view item doesnt exist''], unread = rest\<rparr>
          else if sizeDiff = 0 then
            \<lparr>returned = (), hm = h\<lparr>indexes := idx\<rparr>, emitted = ev,
             console = [], unread = rest\<rparr>
          else
            (case run of
               None \<Rightarrow>
                 \<lparr>returned = (), hm = h\<lparr>indexes := idx\<rparr>, emitted = ev,
                  console = [], unread = rest\<rparr>
             | Some (startIndex, i) \<Rightarrow>
                 (let rows1 = splice startIndex (Suc i - startIndex) [] (heightMap h) in
                  (case fold (remove_shift_fl sizeDiff) [startIndex..<length rows1]
                          (rows1, idx, ev) of
                     (rows2, idx2, ev2) \<Rightarrow>
                       \<lparr>returned = (), hm = \<lparr>heightMap = rows2, indexes = idx2\<rparr>,
                        emitted = ev2, console = [], unread = rest\<rparr>))))"

definition refresh_shift_fl ::
  "int \<Rightarrow> nat \<Rightarrow> view_item list \<times> event list \<Rightarrow> view_item list \<times> event list" where
  "refresh_shift_fl cummDiff j = (\<lambda>(rows, ev).
     (let viewItem = (rows ! j)\<lparr>top_px := fl (top_px (rows ! j) + cummDiff)\<rparr> in
      (rows[j := viewItem], ev @ [OnRefreshItem viewItem False])))"

definition refresh_catchup_fl ::
  "int \<Rightarrow> nat option \<Rightarrow> nat \<Rightarrow> view_item list \<times> event list \<Rightarrow> view_item list \<times> event list" where
  "refresh_catchup_fl cummDiff j bound s =
     (case j of
        None \<Rightarrow> s
      | Some j0 \<Rightarrow>
          if cummDiff \<noteq> 0
          then fold (refresh_shift_fl cummDiff) [j0..<min bound (length (fst s))] s
          else s)"

fun refresh_scan_fl ::
  "item list \<Rightarrow> (string \<rightharpoonup> nat) \<Rightarrow> view_item list \<Rightarrow> nat option \<Rightarrow> int \<Rightarrow> event list
   \<Rightarrow> (view_item list \<times> event list \<times> item list)
     + (view_item list \<times> nat option \<times> int \<times> event list)" where
  "refresh_scan_fl [] idx rows j cummDiff ev = Inr (rows, j, cummDiff, ev)"
| "refresh_scan_fl (it # iterator) idx rows j cummDiff ev =
     (case idx (id_str it) of
        None \<Rightarrow> Inl (rows, ev, iterator)
      | Some i \<Rightarrow>
          (case refresh_catchup_fl cummDiff j i (rows, ev) of
             (rows1, ev1) \<Rightarrow>
               if i < length rows1 then
                 (let viewItem = rows1 ! i;
                      newHeight = getHeight it;
                      viewItem' = viewItem\<lparr>top_px := fl (top_px viewItem + cummDiff),
                                           height := newHeight\<rparr>
                  in refresh_scan_fl iterator idx (rows1[i := viewItem']) (Some (Suc i))
                       (fl (cummDiff + fl (newHeight - height viewItem)))
                       (ev1 @ [OnRefreshItem viewItem' True]))
               else Inl (rows1, ev1, iterator)))"

definition onRefreshItems_fl :: "item list \<Rightarrow> height_map \<Rightarrow> (error + unit, item) outcome" where
  "onRefreshItems_fl iterator h =
     (case refresh_scan_fl iterator (indexes h) (heightMap h) None 0 [] of
        Inl (rows, ev, rest) \<Rightarrow>
          \<lparr>returned = Inl TypeError, hm = h\<lparr>heightMap := rows\<rparr>, emitted = ev,
           console = [], unread = rest\<rparr>
      | Inr (rows, j, cummDiff, ev) \<Rightarrow>
          (case refresh_catchup_fl cummDiff j (length rows) (rows, ev) of
             (rows2, ev2) \<Rightarrow>
               \<lparr>returned = Inr (), hm = h\<lparr>heightMap := rows2\<rparr>, emitted = ev2,
                console = [], unread = []\<rparr>))"

text \<open>
  A state is \<open>safe\<close> when its rows are contiguous from 0, no extent is negative and the
  total is at most \<open>2 ^ 53\<close>: then every offset and every end of a row is a whole number
  that a double holds. The items of a call are \<open>heights_whole\<close> when no height is negative
  (heights are whole numbers throughout).
\<close>

definition safe :: "height_map \<Rightarrow> bool" where
  "safe h \<longleftrightarrow> contiguous h \<and> extents_nonneg h \<and> getTotalHeight h \<le> 2 ^ 53"

definition heights_whole :: "item list \<Rightarrow> bool" where
  "heights_whole its = list_all (\<lambda>it. 0 \<le> getHeight it) its"

text \<open>
  The states the three rounding mutations reach from the state of the constructor, each
  called within its precondition and within the range of exact whole numbers: an insertion
  and a refresh take items whose heights are not negative and add up, together with the
  total before the call, to at most \<open>2 ^ 53\<close>.
\<close>

inductive reachable_fl :: "height_map \<Rightarrow> bool" where
  initial: "reachable_fl new_HeightMap"
| insert: "reachable_fl h \<Longrightarrow> anchor_present h afterItemId \<Longrightarrow> heights_whole its \<Longrightarrow>
           getTotalHeight h + total_height its \<le> 2 ^ 53 \<Longrightarrow>
           reachable_fl (hm (onInsertItems_fl its afterItemId h))"
| remove: "reachable_fl h \<Longrightarrow> contiguous_run h xs \<Longrightarrow> reachable_fl (hm (onRemoveItems_fl xs h))"
| refresh: "reachable_fl h \<Longrightarrow> ascending_present h its \<Longrightarrow> heights_whole its \<Longrightarrow>
            getTotalHeight h + total_height its \<le> 2 ^ 53 \<Longrightarrow>
            reachable_fl (hm (onRefreshItems_fl its h))"

text \<open>
  Modelled from the spec: the precondition of a refresh in the words of claim C1, present
  items in ascending slot order. An item given twice in a row meets it, unlike
  \<open>ascending_present\<close>.
\<close>

definition ascending_as_claimed :: "height_map \<Rightarrow> item list \<Rightarrow> bool" where
  "ascending_as_claimed h its \<longleftrightarrow>
     list_all (\<lambda>it. indexes h (id_str it) \<noteq> None) its \<and>
     sorted (map (\<lambda>it. the (indexes h (id_str it))) its)"

text \<open>
  Items and states at the end of the range of exact whole numbers: three rows whose total
  is \<open>2 ^ 53 + 1\<close>, the last at offset \<open>2 ^ 53\<close>; two rows of height 1, and the same two
  with a row of height \<open>2 ^ 53\<close> inserted between them.
\<close>

definition item_a1 :: item where
  "item_a1 = \<lparr>id_str = ''a'', getHeight = 1\<rparr>"

definition item_a2 :: item where
  "item_a2 = \<lparr>id_str = ''a'', getHeight = 2\<rparr>"

definition item_b_big :: item where
  "item_b_big = \<lparr>id_str = ''b'', getHeight = 2 ^ 53 - 1\<rparr>"

definition item_c1 :: item where
  "item_c1 = \<lparr>id_str = ''c'', getHeight = 1\<rparr>"

definition big_state :: height_map where
  "big_state =
     \<lparr>heightMap =
        [\<lparr>model = item_a1, top_px = 0, height = 1\<rparr>,
         \<lparr>model = item_b_big, top_px = 1, height = 2 ^ 53 - 1\<rparr>,
         \<lparr>model = item_c1, top_px = 2 ^ 53, height = 1\<rparr>],
      indexes = [''a'' \<mapsto> 0, ''b'' \<mapsto> 1, ''c'' \<mapsto> 2]\<rparr>"

definition item_b1 :: item where
  "item_b1 = \<lparr>id_str = ''b'', getHeight = 1\<rparr>"

definition item_x_big :: item where
  "item_x_big = \<lparr>id_str = ''x'', getHeight = 2 ^ 53\<rparr>"

definition two_rows :: height_map where
  "two_rows =
     \<lparr>heightMap =
        [\<lparr>model = item_a1, top_px = 0, height = 1\<rparr>,
         \<lparr>model = item_b1, top_px = 1, height = 1\<rparr>],
      indexes = [''a'' \<mapsto> 0, ''b'' \<mapsto> 1]\<rparr>"

definition three_rows :: height_map where
  "three_rows =
     \<lparr>heightMap =
        [\<lparr>model = item_a1, top_px = 0, height = 1\<rparr>,
         \<lparr>model = item_x_big, top_px = 1, height = 2 ^ 53\<rparr>,
         \<lparr>model = item_b1, top_px = 2 ^ 53, height = 1\<rparr>],
      indexes = [''a'' \<mapsto> 0, ''x'' \<mapsto> 1, ''b'' \<mapsto> 2]\<rparr>"

section \<open>Contiguous rows\<close>


lemma contiguous_from_first: "contiguous_from b rows \<Longrightarrow> rows \<noteq> [] \<Longrightarrow> top_px (rows ! 0) = b"
  by (cases rows) auto

lemma contiguous_from_nth_iff:
  "contiguous_from b rows \<longleftrightarrow>
     (rows \<noteq> [] \<longrightarrow> top_px (rows ! 0) = b) \<and>
     (\<forall>k. Suc k < length rows \<longrightarrow> top_px (rows ! Suc k) = top_px (rows ! k) + height (rows ! k))"
proof (induction rows arbitrary: b)
  case Nil
  then show ?case by simp
next
  case (Cons v vs)
  show ?case
  proof (cases vs)
    case Nil
    then show ?thesis by auto
  next
    case (Cons w ws)
    have "(\<forall>k. Suc k < length (v # vs) \<longrightarrow>
            top_px ((v # vs) ! Suc k) = top_px ((v # vs) ! k) + height ((v # vs) ! k)) \<longleftrightarrow>
          top_px (vs ! 0) = top_px v + height v \<and>
          (\<forall>k. Suc k < length vs \<longrightarrow> top_px (vs ! Suc k) = top_px (vs ! k) + height (vs ! k))"
      (is "?L \<longleftrightarrow> ?R")
    proof
      assume l: ?L
      have "top_px (vs ! 0) = top_px v + height v" using l [rule_format, of 0] Cons by simp
      moreover have "\<forall>k. Suc k < length vs \<longrightarrow> top_px (vs ! Suc k) = top_px (vs ! k) + height (vs ! k)"
        using l by (auto dest: spec [of _ "Suc _"])
      ultimately show ?R by simp
    next
      assume r: ?R
      show ?L
      proof (intro allI impI)
        fix k assume "Suc k < length (v # vs)"
        then show "top_px ((v # vs) ! Suc k) = top_px ((v # vs) ! k) + height ((v # vs) ! k)"
          using r by (cases k) auto
      qed
    qed
    then show ?thesis using Cons.IH [of "b + height v"] Cons by auto
  qed
qed

lemma contiguous_from_end:
  "contiguous_from b rows \<Longrightarrow> rows \<noteq> [] \<Longrightarrow>
   top_px (last rows) + height (last rows) = b + sum_list (map height rows)"
  by (induction rows arbitrary: b) auto



lemma contiguous_from_bounds:
  "contiguous_from b rows \<Longrightarrow> list_all (\<lambda>v. 0 \<le> height v) rows \<Longrightarrow> k < length rows \<Longrightarrow>
   b \<le> top_px (rows ! k) \<and> top_px (rows ! k) + height (rows ! k) \<le> b + sum_list (map height rows)"
proof (induction rows arbitrary: b k)
  case Nil
  then show ?case by simp
next
  case (Cons v vs)
  have nn: "0 \<le> sum_list (map height vs)"
    using Cons.prems(2) by (auto intro!: sum_list_nonneg simp: list_all_iff)
  show ?case
  proof (cases k)
    case 0
    then show ?thesis using Cons.prems nn by simp
  next
    case (Suc k')
    then show ?thesis using Cons.IH [of "b + height v" k'] Cons.prems by simp
  qed
qed

lemma getTotalHeight_last:
  "getTotalHeight h =
     (if heightMap h = [] then 0
      else top_px (last (heightMap h)) + height (last (heightMap h)))"
  by (simp add: getTotalHeight_def split: list.splits)

lemma getTotalHeight_sum:
  "contiguous h \<Longrightarrow> getTotalHeight h = sum_list (map height (heightMap h))"
  using contiguous_from_end [of 0 "heightMap h"]
  by (auto simp: getTotalHeight_def contiguous_def split: list.splits)

lemma outside_no_window:
  assumes "contiguous h" "extents_nonneg h"
    and "p < 0 \<or> getTotalHeight h \<le> p \<or> heightMap h = []"
  shows "\<forall>k<length (heightMap h). \<not> in_window (heightMap h ! k) p"
proof (intro allI impI)
  fix k assume k: "k < length (heightMap h)"
  have c: "contiguous_from 0 (heightMap h)" and n: "list_all (\<lambda>v. 0 \<le> height v) (heightMap h)"
    using assms by (simp_all add: contiguous_def extents_nonneg_def)
  have "0 \<le> top_px (heightMap h ! k)"
    and "top_px (heightMap h ! k) + height (heightMap h ! k) \<le> getTotalHeight h"
    using contiguous_from_bounds [OF c n k] getTotalHeight_sum [OF assms(1)] by simp_all
  then show "\<not> in_window (heightMap h ! k) p"
    using assms(3) k by (auto simp: in_window_def)
qed

lemma shifted_simps [simp]:
  "top_px (shifted d v) = top_px v + d" "height (shifted d v) = height v"
  "model (shifted d v) = model v" "row_id (shifted d v) = row_id v"
  "shifted 0 v = v" "shifted d (shifted e v) = shifted (e + d) v"
  by (simp_all add: shifted_def row_id_def)

lemma shifted_comp [simp]:
  "height \<circ> shifted d = height" "row_id \<circ> shifted d = row_id"
  by (simp_all add: fun_eq_iff)

lemma map_shifted_0 [simp]: "map (shifted 0) xs = xs"
  by (induction xs) auto

lemma contiguous_from_append:
  "contiguous_from b (xs @ ys) \<longleftrightarrow>
     contiguous_from b xs \<and> contiguous_from (b + sum_list (map height xs)) ys"
  by (induction xs arbitrary: b) (auto simp: add.assoc)

lemma contiguous_from_shifted:
  "contiguous_from b (map (shifted d) xs) \<longleftrightarrow> contiguous_from (b - d) xs"
  by (induction xs arbitrary: b) (auto simp: algebra_simps)

lemma split3: "a \<le> i \<Longrightarrow> i \<le> length rows \<Longrightarrow>
   rows = take a rows @ take (i - a) (drop a rows) @ drop i rows"
  by (metis append.assoc append_take_drop_id le_add_diff_inverse take_add)

lemma scenario_A_valid: "contiguous scenario_A" "extents_nonneg scenario_A"
  by (simp_all add: scenario_A_def contiguous_def extents_nonneg_def)

lemma scenario_A_total: "getTotalHeight scenario_A = 60"
  by (simp add: scenario_A_def getTotalHeight_def)

section \<open>The binary search\<close>

text \<open>
  The loop returns a slot only when the slot's window holds the position; it returns the
  number of rows when no window does; and where the windows are in ascending order without
  overlap it finds the slot whose window holds the position.
\<close>

lemma indexAt_loop_sound:
  "indexAt_loop rows p l r = s \<Longrightarrow> s < length rows \<Longrightarrow> in_window (rows ! s) p"
proof (induction rows p l r rule: indexAt_loop.induct)
  case (1 rows position left right)
  from "1.prems"(1) have e: "(if left < right then
        (let center = (left + right) div 2; item = rows ! center in
         if position < top_px item then indexAt_loop rows position left center
         else if position \<ge> top_px item + height item then
           (if left = center then length rows
            else indexAt_loop rows position center right)
         else center)
      else length rows) = s"
    by (subst (asm) indexAt_loop.simps)
  show ?case
    using e "1.prems"(2) "1.IH"
    by (auto simp: Let_def in_window_def split: if_splits)
qed

lemma indexAt_loop_none:
  "\<forall>k<length rows. \<not> in_window (rows ! k) p \<Longrightarrow> r \<le> length rows \<Longrightarrow>
   indexAt_loop rows p l r = length rows"
proof (induction rows p l r rule: indexAt_loop.induct)
  case (1 rows position left right)
  show ?case
  proof (cases "left < right")
    case False
    then show ?thesis by (subst indexAt_loop.simps) simp
  next
    case True
    define center where "center = (left + right) div 2"
    have c: "left \<le> center" "center < right" using True by (auto simp: center_def)
    then have nw: "\<not> in_window (rows ! center) position" using "1.prems" by simp
    show ?thesis
    proof (cases "position < top_px (rows ! center)")
      case lt: True
      have "indexAt_loop rows position left center = length rows"
        using "1.IH"(1) [OF True center_def [symmetric, THEN sym] refl lt] "1.prems" c by simp
      then show ?thesis using True lt
        by (subst indexAt_loop.simps) (simp add: Let_def center_def)
    next
      case ge: False
      then have ge2: "position \<ge> top_px (rows ! center) + height (rows ! center)"
        using nw by (simp add: in_window_def)
      show ?thesis
      proof (cases "left = center")
        case eq: True
        then show ?thesis using True ge ge2
          by (subst indexAt_loop.simps) (simp add: Let_def center_def)
      next
        case ne: False
        have "indexAt_loop rows position center right = length rows"
          using "1.IH"(2) [OF True center_def [symmetric, THEN sym] refl ge ge2 ne] "1.prems" by simp
        then show ?thesis using True ge ge2 ne
          by (subst indexAt_loop.simps) (simp add: Let_def center_def)
      qed
    qed
  qed
qed




text \<open>
  C9. When no row's window holds \<open>p\<close>, \<open>indexAt p\<close> is the number of rows, a slot with no
  row, and \<open>itemAt p\<close> reads a field of \<open>undefined\<close> there and throws; this is the case for a
  negative \<open>p\<close>, for \<open>p\<close> at or beyond \<open>getTotalHeight\<close> and for a map with no row (the rows
  contiguous from 0, their extents not negative).
\<close>

theorem itemAt_no_row:
  "(list_all (\<lambda>v. \<not> in_window v p) (heightMap h) \<longrightarrow>
      indexAt h p = itemsCount h \<and> itemAt h p = Inl TypeError) \<and>
   (contiguous h \<and> extents_nonneg h \<and> (p < 0 \<or> getTotalHeight h \<le> p \<or> heightMap h = []) \<longrightarrow>
      list_all (\<lambda>v. \<not> in_window v p) (heightMap h))"
proof (intro conjI impI)
  assume a: "list_all (\<lambda>v. \<not> in_window v p) (heightMap h)"
  then have "\<forall>k<length (heightMap h). \<not> in_window (heightMap h ! k) p"
    by (simp add: list_all_length)
  then show i: "indexAt h p = itemsCount h"
    unfolding indexAt_def itemsCount_def by (simp add: indexAt_loop_none)
  show "itemAt h p = Inl TypeError"
    using i by (simp add: itemAt_def itemsCount_def)
next
  assume "contiguous h \<and> extents_nonneg h \<and> (p < 0 \<or> getTotalHeight h \<le> p \<or> heightMap h = [])"
  then show "list_all (\<lambda>v. \<not> in_window v p) (heightMap h)"
    using outside_no_window [of h p] by (simp add: list_all_length)
qed

theorem itemAt_no_row_witness:
  "contiguous scenario_A \<and> extents_nonneg scenario_A \<and> getTotalHeight scenario_A \<le> 60 \<and>
   list_all (\<lambda>v. \<not> in_window v 60) (heightMap scenario_A) \<and>
   indexAt scenario_A 60 = itemsCount scenario_A \<and> itemAt scenario_A 60 = Inl TypeError \<and>
   itemAt scenario_A (- 1) = Inl TypeError \<and> itemAt new_HeightMap 0 = Inl TypeError"
proof -
  have e: "contiguous new_HeightMap" "extents_nonneg new_HeightMap" "heightMap new_HeightMap = []"
    by (simp_all add: new_HeightMap_def contiguous_def extents_nonneg_def)
  show ?thesis
    using itemAt_no_row [of 60 scenario_A] itemAt_no_row [of "- 1" scenario_A]
      itemAt_no_row [of 0 new_HeightMap] scenario_A_valid scenario_A_total e
    by simp
qed



section \<open>Insertion\<close>

text \<open>
  The scan and the shifting loop in closed form, and with them the outcome of a successful
  insertion (\<open>onInsertItems_eq\<close>).
\<close>

lemma index_ids_append:
  "index_ids n (xs @ ys) m = index_ids (n + length xs) ys (index_ids n xs m)"
  by (induction xs arbitrary: n m) auto

lemma index_ids_notin: "x \<notin> set xs \<Longrightarrow> index_ids n xs m x = m x"
  by (induction xs arbitrary: n m) auto

lemma index_ids_in:
  "x \<in> set xs \<Longrightarrow> \<exists>k<length xs. xs ! k = x \<and> index_ids n xs m x = Some (n + k)"
proof (induction xs arbitrary: n m)
  case Nil
  then show ?case by simp
next
  case (Cons y ys)
  show ?case
  proof (cases "x \<in> set ys")
    case True
    then obtain k where "k < length ys" "ys ! k = x" "index_ids (Suc n) ys (m(y \<mapsto> n)) x = Some (Suc n + k)"
      using Cons.IH by blast
    then have "Suc k < length (y # ys) \<and> (y # ys) ! Suc k = x \<and> index_ids n (y # ys) m x = Some (n + Suc k)"
      by simp
    then show ?thesis by blast
  next
    case False
    then have "x = y" using Cons.prems by simp
    then have "0 < length (y # ys) \<and> (y # ys) ! 0 = x \<and> index_ids n (y # ys) m x = Some (n + 0)"
      using False by (simp add: index_ids_notin)
    then show ?thesis by blast
  qed
qed

lemma index_ids_distinct:
  "distinct xs \<Longrightarrow> k < length xs \<Longrightarrow> index_ids n xs m (xs ! k) = Some (n + k)"
proof -
  assume d: "distinct xs" and k: "k < length xs"
  then obtain k' where k': "k' < length xs" "xs ! k' = xs ! k" "index_ids n xs m (xs ! k) = Some (n + k')"
    using index_ids_in [of "xs ! k" xs n m] by auto
  then have "k' = k" using d k by (simp add: nth_eq_iff_index_eq)
  then show ?thesis using k' by simp
qed

lemma length_new_rows [simp]: "length (new_rows b its) = length its"
  by (induction its arbitrary: b) auto

lemma map_row_id_new_rows [simp]: "map row_id (new_rows b its) = map id_str its"
  by (induction its arbitrary: b) (auto simp: row_id_def)

lemma sum_height_new_rows [simp]: "sum_list (map height (new_rows b its)) = total_height its"
  by (induction its arbitrary: b) (auto simp: total_height_def)

lemma contiguous_from_new_rows [simp]: "contiguous_from b (new_rows b its)"
  by (induction its arbitrary: b) auto

lemma insert_scan_eq:
  "insert_scan its totalSize i idx acc sizeDiff ev =
     (i + length its, index_ids i (map id_str its) idx,
      acc @ new_rows (totalSize + sizeDiff) its, sizeDiff + total_height its,
      ev @ map ViewItemCreate its)"
  by (induction its arbitrary: i idx acc sizeDiff ev)
    (auto simp: createViewItem_def total_height_def add.assoc)

lemma upt_add_Cons: "[n..<n + Suc k] = n # [Suc n..<Suc n + k]"
  by (simp add: upt_conv_Cons del: upt_Suc)

lemma fold_insert_shift:
  "fold (insert_shift d) [length P..<length P + length S] (P @ S, m) =
     (P @ map (shifted d) S, index_ids (length P) (map row_id S) m)"
proof (induction S arbitrary: P m)
  case Nil
  then show ?case by simp
next
  case (Cons v S)
  have "fold (insert_shift d) [length P..<length P + length (v # S)] (P @ v # S, m) =
        fold (insert_shift d) [length (P @ [shifted d v])..<length (P @ [shifted d v]) + length S]
          ((P @ [shifted d v]) @ S, m(row_id v \<mapsto> length P))"
    using upt_add_Cons [of "length P" "length S"]
    by (simp add: insert_shift_def shifted_def row_id_def del: upt_Suc)
  also have "\<dots> = ((P @ [shifted d v]) @ map (shifted d) S,
                   index_ids (length (P @ [shifted d v])) (map row_id S) (m(row_id v \<mapsto> length P)))"
    by (rule Cons.IH)
  finally show ?case by simp
qed

lemma map_nth_drop: "map (\<lambda>j. f (xs ! j)) [a..<length xs] = map f (drop a xs)"
  by (rule nth_equalityI) (auto simp: nth_map_upt)

lemma map_nth_rev_drop: "map (\<lambda>j. f (xs ! j)) (rev [a..<length xs]) = map f (rev (drop a xs))"
  using map_nth_drop [of f xs a] by (simp add: rev_map [symmetric])

lemma onInsertItems_eq:
  assumes "insert_anchor h afterItemId = Some (i0, totalSize)"
  shows "onInsertItems its afterItemId h =
     \<lparr>returned = Some (total_height its),
      hm = \<lparr>heightMap = take i0 (heightMap h) @ new_rows totalSize its
                @ map (shifted (total_height its)) (drop i0 (heightMap h)),
            indexes = index_ids i0 (map id_str its @ map row_id (drop i0 (heightMap h)))
                        (indexes h)\<rparr>,
      emitted = map ViewItemCreate its @ map OnInsertItem (rev (new_rows totalSize its))
        @ map (\<lambda>v. OnRefreshItem (shifted (total_height its) v) False)
            (rev (drop i0 (heightMap h))),
      console = [], unread = []\<rparr>"
proof -
  let ?rows = "heightMap h"
  have i0: "i0 \<le> length ?rows"
    using assms by (auto simp: insert_anchor_def split: option.splits if_splits)
  let ?P = "take i0 ?rows @ new_rows totalSize its"
  let ?S = "drop i0 ?rows"
  have len: "length ?P = i0 + length its" "length (?P @ ?S) = length ?P + length ?S"
    using i0 by simp_all
  have f: "fold (insert_shift (total_height its)) [i0 + length its..<length (?P @ ?S)]
             (?P @ ?S, index_ids i0 (map id_str its) (indexes h)) =
           (?P @ map (shifted (total_height its)) ?S,
            index_ids (i0 + length its) (map row_id ?S) (index_ids i0 (map id_str its) (indexes h)))"
    using fold_insert_shift [of "total_height its" ?P ?S] len by simp
  have r1: "map (\<lambda>j. OnInsertItem (new_rows totalSize its ! j)) (rev [0..<length its]) =
            map OnInsertItem (rev (new_rows totalSize its))"
    using map_nth_rev_drop [of OnInsertItem "new_rows totalSize its" 0] by simp
  let ?R = "?P @ map (shifted (total_height its)) ?S"
  have r2: "map (\<lambda>j. OnRefreshItem (?R ! j) False) (rev [i0 + length its..<length ?R]) =
            map (\<lambda>v. OnRefreshItem (shifted (total_height its) v) False) (rev ?S)"
    using map_nth_rev_drop [of "\<lambda>v. OnRefreshItem v False" ?R "i0 + length its"] len
    by (simp add: rev_map)
  show ?thesis
    using assms f r1 r2 len
    by (simp add: onInsertItems_def insert_scan_eq splice_def index_ids_append)
qed

text \<open>An insertion keeps the rows contiguous and the index valid.\<close>

lemma insert_anchor_base:
  assumes "contiguous h" and "insert_anchor h afterItemId = Some (i0, base)"
  shows "i0 \<le> length (heightMap h) \<and> base = sum_list (map height (take i0 (heightMap h)))"
proof (cases afterItemId)
  case None
  then show ?thesis using assms(2) by (simp add: insert_anchor_def)
next
  case (Some a)
  then obtain k where k: "indexes h a = Some k" "k < length (heightMap h)" "i0 = Suc k"
    "base = top_px (heightMap h ! k) + height (heightMap h ! k)"
    using assms(2) by (auto simp: insert_anchor_def split: option.splits if_splits)
  let ?T = "take (Suc k) (heightMap h)"
  have "contiguous_from 0 (?T @ drop (Suc k) (heightMap h))"
    using assms(1) by (simp add: contiguous_def)
  then have c: "contiguous_from 0 ?T" by (simp only: contiguous_from_append)
  have t: "?T = take k (heightMap h) @ [heightMap h ! k]"
    using k(2) by (simp add: take_Suc_conv_app_nth)
  have "top_px (last ?T) + height (last ?T) = 0 + sum_list (map height ?T)"
    by (rule contiguous_from_end [OF c]) (simp add: t)
  then show ?thesis using k t by simp
qed

lemma index_valid_reindex:
  assumes "\<forall>x k. m x = Some k \<longrightarrow> (k < length P \<and> row_id (P ! k) = x) \<or> x \<in> row_id ` set S"
  shows "index_valid \<lparr>heightMap = P @ S, indexes = index_ids (length P) (map row_id S) m\<rparr>"
  unfolding index_valid_def
proof (intro allI impI)
  fix x k
  assume a: "indexes \<lparr>heightMap = P @ S, indexes = index_ids (length P) (map row_id S) m\<rparr> x = Some k"
  show "k < length (heightMap \<lparr>heightMap = P @ S, indexes = index_ids (length P) (map row_id S) m\<rparr>) \<and>
        row_id (heightMap \<lparr>heightMap = P @ S, indexes = index_ids (length P) (map row_id S) m\<rparr> ! k) = x"
  proof (cases "x \<in> set (map row_id S)")
    case True
    then obtain k' where "k' < length (map row_id S)" "map row_id S ! k' = x"
      "index_ids (length P) (map row_id S) m x = Some (length P + k')"
      using index_ids_in [of x "map row_id S" "length P" m] by blast
    then show ?thesis using a by (auto simp: nth_append)
  next
    case False
    then have "m x = Some k" using a by (simp add: index_ids_notin)
    then have "k < length P \<and> row_id (P ! k) = x" using assms False by auto
    then show ?thesis by (simp add: nth_append)
  qed
qed

lemma insert_preserves:
  assumes c: "contiguous h" and v: "index_valid h" and a: "anchor_present h afterItemId"
  shows "contiguous (hm (onInsertItems its afterItemId h)) \<and>
         index_valid (hm (onInsertItems its afterItemId h))"
proof -
  let ?rows = "heightMap h"
  obtain i0 base where an: "insert_anchor h afterItemId = Some (i0, base)"
    using a v by (cases afterItemId) (auto simp: anchor_present_def insert_anchor_def index_valid_def)
  have i0: "i0 \<le> length ?rows" and base: "base = sum_list (map height (take i0 ?rows))"
    using insert_anchor_base [OF c an] by simp_all
  let ?P = "take i0 ?rows" and ?T = "drop i0 ?rows"
  let ?S = "new_rows base its @ map (shifted (total_height its)) ?T"
  have e: "hm (onInsertItems its afterItemId h) =
           \<lparr>heightMap = ?P @ ?S, indexes = index_ids (length ?P) (map row_id ?S) (indexes h)\<rparr>"
    using i0 by (simp add: onInsertItems_eq [OF an])
  have "contiguous_from 0 (?P @ ?T)" using c by (simp add: contiguous_def)
  then have "contiguous_from 0 ?P \<and> contiguous_from (sum_list (map height ?P)) ?T"
    by (simp only: contiguous_from_append add_0)
  then have "contiguous_from 0 (?P @ ?S)"
    using base by (simp add: contiguous_from_append contiguous_from_shifted)
  moreover have "\<forall>x k. indexes h x = Some k \<longrightarrow>
      (k < length ?P \<and> row_id (?P ! k) = x) \<or> x \<in> row_id ` set ?S"
  proof (intro allI impI)
    fix x k assume "indexes h x = Some k"
    then have k: "k < length ?rows" "row_id (?rows ! k) = x" using v by (auto simp: index_valid_def)
    show "(k < length ?P \<and> row_id (?P ! k) = x) \<or> x \<in> row_id ` set ?S"
    proof (cases "k < i0")
      case True
      then show ?thesis using k by simp
    next
      case False
      then have "?rows ! k = ?T ! (k - i0)" "k - i0 < length ?T" using k(1) by simp_all
      then have "?rows ! k \<in> set ?T" by (metis nth_mem)
      then have "x \<in> row_id ` set ?T" using k(2) by blast
      then show ?thesis by (auto simp: image_Un image_image)
    qed
  qed
  ultimately show ?thesis
    unfolding e using index_valid_reindex [of "indexes h" ?P ?S] by (simp add: contiguous_def)
qed

text \<open>
  I2 after an insertion: it holds again when it held before, the rows were contiguous, and
  the new identities are distinct and not among the identities of the rows.
\<close>

lemma index_consistent_iff:
  "index_consistent h \<longleftrightarrow>
     index_valid h \<and> (\<forall>k<length (heightMap h). indexes h (row_id (heightMap h ! k)) = Some k)"
proof
  assume c: "index_consistent h"
  have "k < length (heightMap h) \<and> row_id (heightMap h ! k) = x" if x: "indexes h x = Some k" for x k
  proof -
    have "x \<in> row_id ` set (heightMap h)" using c x by (auto simp: index_consistent_def)
    then obtain j where j: "j < length (heightMap h)" "row_id (heightMap h ! j) = x"
      by (auto simp: in_set_conv_nth)
    then have "indexes h x = Some j" using c by (auto simp: index_consistent_def)
    then show ?thesis using x j by simp
  qed
  then show "index_valid h \<and> (\<forall>k<length (heightMap h). indexes h (row_id (heightMap h ! k)) = Some k)"
    using c by (auto simp: index_valid_def index_consistent_def)
next
  assume a: "index_valid h \<and> (\<forall>k<length (heightMap h). indexes h (row_id (heightMap h ! k)) = Some k)"
  have "dom (indexes h) = row_id ` set (heightMap h)"
  proof (intro set_eqI iffI)
    fix x assume "x \<in> dom (indexes h)"
    then obtain k where "indexes h x = Some k" by auto
    then have "k < length (heightMap h)" "row_id (heightMap h ! k) = x"
      using a by (auto simp: index_valid_def)
    then show "x \<in> row_id ` set (heightMap h)" by (metis imageI nth_mem)
  next
    fix x assume "x \<in> row_id ` set (heightMap h)"
    then obtain j where "j < length (heightMap h)" "row_id (heightMap h ! j) = x"
      by (auto simp: in_set_conv_nth)
    then show "x \<in> dom (indexes h)" using a by auto
  qed
  then show "index_consistent h" using a by (simp add: index_consistent_def)
qed

lemma index_consistent_distinct:
  assumes "index_consistent h"
  shows "distinct (map row_id (heightMap h))"
proof -
  have "row_id (heightMap h ! i) \<noteq> row_id (heightMap h ! j)"
    if "i < length (heightMap h)" "j < length (heightMap h)" "i \<noteq> j" for i j
  proof
    assume e: "row_id (heightMap h ! i) = row_id (heightMap h ! j)"
    have "indexes h (row_id (heightMap h ! i)) = Some i" "indexes h (row_id (heightMap h ! j)) = Some j"
      using assms that by (simp_all add: index_consistent_def)
    then show False using e that(3) by simp
  qed
  then show ?thesis by (simp add: distinct_conv_nth)
qed

lemma reindex_consistent:
  assumes d: "distinct (map row_id (P @ S))"
    and p: "\<forall>k<length P. m (row_id (P ! k)) = Some k"
  shows "\<forall>k<length (P @ S). index_ids (length P) (map row_id S) m (row_id ((P @ S) ! k)) = Some k"
proof (intro allI impI)
  fix k assume k: "k < length (P @ S)"
  show "index_ids (length P) (map row_id S) m (row_id ((P @ S) ! k)) = Some k"
  proof (cases "k < length P")
    case True
    then have "row_id (P ! k) \<in> set (map row_id P)" by simp
    then have "row_id (P ! k) \<notin> set (map row_id S)" using d by auto
    then show ?thesis using True p by (simp add: nth_append index_ids_notin)
  next
    case False
    then have k': "k - length P < length (map row_id S)" using k by simp
    have "distinct (map row_id S)" using d by simp
    then have "index_ids (length P) (map row_id S) m (map row_id S ! (k - length P)) =
               Some (length P + (k - length P))"
      using k' by (rule index_ids_distinct)
    then show ?thesis using False k' by (simp add: nth_append)
  qed
qed

lemma insert_consistent:
  assumes c: "contiguous h" and v: "index_consistent h" and a: "anchor_present h afterItemId"
    and d: "distinct (map id_str its)"
    and f: "set (map id_str its) \<inter> row_id ` set (heightMap h) = {}"
  shows "index_consistent (hm (onInsertItems its afterItemId h))"
proof -
  let ?rows = "heightMap h"
  have iv: "index_valid h" using v by (simp add: index_consistent_iff)
  obtain i0 base where an: "insert_anchor h afterItemId = Some (i0, base)"
    using a iv by (cases afterItemId) (auto simp: anchor_present_def insert_anchor_def index_valid_def)
  have i0: "i0 \<le> length ?rows" using insert_anchor_base [OF c an] by simp
  define P where "P = take i0 ?rows"
  define T where "T = drop i0 ?rows"
  have rows: "?rows = P @ T" and lp: "length P = i0" using i0 by (simp_all add: P_def T_def)
  let ?S = "new_rows base its @ map (shifted (total_height its)) T"
  have e: "hm (onInsertItems its afterItemId h) =
           \<lparr>heightMap = P @ ?S, indexes = index_ids (length P) (map row_id ?S) (indexes h)\<rparr>"
    using i0 by (simp add: onInsertItems_eq [OF an] P_def T_def)
  have "distinct (map row_id (P @ T))" using index_consistent_distinct [OF v] rows by simp
  moreover have "set (map id_str its) \<inter> row_id ` set (P @ T) = {}" using f rows by simp
  ultimately have dd: "distinct (map row_id (P @ ?S))"
    using d by (auto simp: image_Un)
  have pp: "\<forall>k<length P. indexes h (row_id (P ! k)) = Some k"
    using v lp i0 by (simp add: index_consistent_def P_def)
  show ?thesis
    unfolding index_consistent_iff
    using insert_preserves [OF c iv a, of its] reindex_consistent [OF dd pp]
    by (simp add: e)
qed

lemma map_nth_slice:
  "a + n \<le> length xs \<Longrightarrow> map (\<lambda>j. f (xs ! j)) [a..<a + n] = map f (take n (drop a xs))"
  by (rule nth_equalityI) (auto simp: nth_map_upt)

text \<open>
  C8, as amended. A successful insertion of the items \<open>its\<close> at slot \<open>i\<close> emits one
  \<open>viewItem:create\<close> per item in input order during the scan, then calls \<open>onInsertItem\<close>
  once per new row in reverse input order (slots \<open>i + length its - 1\<close> down to \<open>i\<close>), then
  calls \<open>onRefreshItem\<close> once per row behind the new rows in descending slot order, from the
  last slot down to \<open>i + length its\<close>.
\<close>

theorem insert_trace:
  assumes "insert_anchor h afterItemId = Some (i, totalSize)"
  shows "emitted (onInsertItems its afterItemId h) =
     map ViewItemCreate its
     @ map (\<lambda>j. OnInsertItem (heightMap (hm (onInsertItems its afterItemId h)) ! j))
         (rev [i..<i + length its])
     @ map (\<lambda>j. OnRefreshItem (heightMap (hm (onInsertItems its afterItemId h)) ! j) False)
         (rev [i + length its..<length (heightMap (hm (onInsertItems its afterItemId h)))])"
proof -
  let ?rows = "heightMap h"
  let ?new = "new_rows totalSize its"
  let ?S = "map (shifted (total_height its)) (drop i ?rows)"
  let ?res = "take i ?rows @ ?new @ ?S"
  have i: "i \<le> length ?rows"
    using assms by (auto simp: insert_anchor_def split: option.splits if_splits)
  have e: "onInsertItems its afterItemId h =
     \<lparr>returned = Some (total_height its),
      hm = \<lparr>heightMap = ?res,
            indexes = index_ids i (map id_str its @ map row_id (drop i ?rows)) (indexes h)\<rparr>,
      emitted = map ViewItemCreate its @ map OnInsertItem (rev ?new)
        @ map (\<lambda>v. OnRefreshItem (shifted (total_height its) v) False) (rev (drop i ?rows)),
      console = [], unread = []\<rparr>"
    by (rule onInsertItems_eq [OF assms])
  have a: "map (\<lambda>j. OnInsertItem (?res ! j)) [i..<i + length its] = map OnInsertItem ?new"
    using map_nth_slice [of i "length its" ?res OnInsertItem] i by simp
  have b: "map (\<lambda>j. OnRefreshItem (?res ! j) False) [i + length its..<length ?res] =
           map (\<lambda>v. OnRefreshItem v False) ?S"
    using map_nth_drop [of "\<lambda>v. OnRefreshItem v False" ?res "i + length its"] i by simp
  show ?thesis
    unfolding e using a b by (simp add: rev_map [symmetric] comp_def)
qed

theorem insert_trace_witness:
  "insert_anchor scenario_A None = Some (0, 0) \<and>
   emitted (onInsertItems [item_x] None scenario_A) =
     [ViewItemCreate item_x,
      OnInsertItem \<lparr>model = item_x, top_px = 0, height = 5\<rparr>,
      OnRefreshItem \<lparr>model = \<lparr>id_str = ''c'', getHeight = 30\<rparr>, top_px = 35, height = 30\<rparr> False,
      OnRefreshItem \<lparr>model = \<lparr>id_str = ''b'', getHeight = 20\<rparr>, top_px = 15, height = 20\<rparr> False,
      OnRefreshItem \<lparr>model = \<lparr>id_str = ''a'', getHeight = 10\<rparr>, top_px = 5, height = 10\<rparr> False]"
proof -
  have a: "insert_anchor scenario_A None = Some (0, 0)" by (simp add: insert_anchor_def)
  have r: "heightMap (hm (onInsertItems [item_x] None scenario_A)) =
     [\<lparr>model = item_x, top_px = 0, height = 5\<rparr>,
      \<lparr>model = \<lparr>id_str = ''a'', getHeight = 10\<rparr>, top_px = 5, height = 10\<rparr>,
      \<lparr>model = \<lparr>id_str = ''b'', getHeight = 20\<rparr>, top_px = 15, height = 20\<rparr>,
      \<lparr>model = \<lparr>id_str = ''c'', getHeight = 30\<rparr>, top_px = 35, height = 30\<rparr>]"
    unfolding onInsertItems_eq [OF a]
    by (simp add: scenario_A_def item_x_def total_height_def shifted_def)
  have u: "rev [0..<0 + length [item_x]] = [0]"
    "rev [0 + length [item_x]..<length (heightMap (hm (onInsertItems [item_x] None scenario_A)))] = [3, 2, 1]"
    unfolding r by (simp_all add: upt_rec)
  show ?thesis
    using insert_trace [OF a, of "[item_x]"] a unfolding u unfolding r by simp
qed

text \<open>
  C8 as stated fails: inserting one item in front of the three rows of Scenario A, the
  trace is not the claimed one, and the \<open>onRefreshItem\<close> calls alone do not come in the
  claimed (ascending) order either.
\<close>

theorem insert_trace_counterexample:
  "emitted (onInsertItems [item_x] None scenario_A) \<noteq> claimed_insert_trace [item_x] None scenario_A \<and>
   filter is_refreshed (emitted (onInsertItems [item_x] None scenario_A)) \<noteq>
   filter is_refreshed (claimed_insert_trace [item_x] None scenario_A)"
proof -
  have a: "insert_anchor scenario_A None = Some (0, 0)" by (simp add: insert_anchor_def)
  have e: "onInsertItems [item_x] None scenario_A =
     \<lparr>returned = Some 5,
      hm = \<lparr>heightMap =
        [\<lparr>model = item_x, top_px = 0, height = 5\<rparr>,
         \<lparr>model = \<lparr>id_str = ''a'', getHeight = 10\<rparr>, top_px = 5, height = 10\<rparr>,
         \<lparr>model = \<lparr>id_str = ''b'', getHeight = 20\<rparr>, top_px = 15, height = 20\<rparr>,
         \<lparr>model = \<lparr>id_str = ''c'', getHeight = 30\<rparr>, top_px = 35, height = 30\<rparr>],
        indexes = index_ids 0 [''x'', ''a'', ''b'', ''c''] (indexes scenario_A)\<rparr>,
      emitted = [ViewItemCreate item_x,
        OnInsertItem \<lparr>model = item_x, top_px = 0, height = 5\<rparr>,
        OnRefreshItem \<lparr>model = \<lparr>id_str = ''c'', getHeight = 30\<rparr>, top_px = 35, height = 30\<rparr> False,
        OnRefreshItem \<lparr>model = \<lparr>id_str = ''b'', getHeight = 20\<rparr>, top_px = 15, height = 20\<rparr> False,
        OnRefreshItem \<lparr>model = \<lparr>id_str = ''a'', getHeight = 10\<rparr>, top_px = 5, height = 10\<rparr> False],
      console = [], unread = []\<rparr>"
    unfolding onInsertItems_eq [OF a]
    by (simp add: scenario_A_def item_x_def total_height_def shifted_def row_id_def)
  have u: "[0 + length [item_x]..<length [a, b, c, d]] = [1, 2, 3]" for a b c d :: view_item
    by (simp add: upt_rec)
  show ?thesis
    unfolding claimed_insert_trace_def a e
    by (simp add: u is_refreshed_def)
qed

text \<open>
  C5. When the anchor is given and has no entry in the index, \<open>onInsertItems\<close> writes the
  error to the console and returns \<open>undefined\<close> (\<open>None\<close>): the rows and the index are as
  before, no item has been taken from the iterator and no observer has been called.
\<close>

theorem onInsertItems_absent_anchor:
  "indexes h a = None \<Longrightarrow>
   onInsertItems iterator (Some a) h =
     \<lparr>returned = None, hm = h, emitted = [], console = [''view item doesnt exist''],
      unread = iterator\<rparr>"
  by (simp add: onInsertItems_def insert_anchor_def)

theorem onInsertItems_absent_anchor_witness:
  "indexes scenario_A ''q'' = None \<and>
   onInsertItems [\<lparr>id_str = ''x'', getHeight = 5\<rparr>] (Some ''q'') scenario_A =
     \<lparr>returned = None, hm = scenario_A, emitted = [], console = [''view item doesnt exist''],
      unread = [\<lparr>id_str = ''x'', getHeight = 5\<rparr>]\<rparr>"
proof -
  have a: "indexes scenario_A ''q'' = None" by (simp add: scenario_A_def)
  show ?thesis using onInsertItems_absent_anchor [OF a] a by simp
qed

section \<open>Removal\<close>

text \<open>
  The removal loop over a prefix of identities that are all found, and with it the outcome
  of a removal that stops at a missing identity (\<open>onRemoveItems_abort\<close>), of one that removes
  a run of extent zero (\<open>onRemoveItems_zero\<close>) and of one that splices (\<open>onRemoveItems_eq\<close>).
\<close>

lemma run_after_Some: "run_after (Some (s, l)) ks = Some (s, last (l # ks))"
  by (induction ks arbitrary: l) auto

lemma run_after_None: "run_after None (k # ks) = Some (k, last (k # ks))"
  by (simp add: run_after_Some)

lemma restrict_map_delete:
  "(idx(x := None)) |` (- set xs) = idx |` (- set (x # xs))"
  by (rule ext) (simp add: restrict_map_def)

lemma remove_scan_prefix:
  assumes "map idx xs = map Some ks" and "distinct xs" and "[] \<notin> set xs"
    and "\<forall>k\<in>set ks. k < length rows"
  shows "remove_scan (xs @ rest) rows idx sizeDiff run ev =
         remove_scan rest rows (idx |` (- set xs))
           (sizeDiff - sum_list (map (\<lambda>k. height (rows ! k)) ks))
           (run_after run ks) (ev @ map (\<lambda>k. OnRemoveItem (rows ! k)) ks)"
  using assms
proof (induction xs arbitrary: ks idx sizeDiff run ev)
  case Nil
  then show ?case by simp
next
  case (Cons x xs)
  then obtain k ks' where ks: "ks = k # ks'" by (cases ks) auto
  have x: "idx x = Some k" "k < length rows" "x \<noteq> []" using Cons.prems ks by auto
  have e: "map (idx(x := None)) xs = map idx xs" using Cons.prems(2) by (intro map_cong) auto
  have "map idx xs = map Some ks'" using Cons.prems(1) ks by simp
  then have m: "map (idx(x := None)) xs = map Some ks'" by (simp only: e)
  have ih: "remove_scan (xs @ rest) rows (idx(x := None)) sd r e =
         remove_scan rest rows ((idx(x := None)) |` (- set xs))
           (sd - sum_list (map (\<lambda>k. height (rows ! k)) ks'))
           (run_after r ks') (e @ map (\<lambda>k. OnRemoveItem (rows ! k)) ks')" for sd r e
    by (rule Cons.IH [OF m]) (use Cons.prems ks in auto)
  have "remove_scan ((x # xs) @ rest) rows idx sizeDiff run ev =
        remove_scan (xs @ rest) rows (idx(x := None)) (sizeDiff - height (rows ! k))
          (Some (case run of None \<Rightarrow> k | Some (startIndex, _) \<Rightarrow> startIndex, k))
          (ev @ [OnRemoveItem (rows ! k)])"
    using x by (simp add: Let_def)
  then show ?case
    unfolding ih restrict_map_delete ks by (simp add: algebra_simps)
qed

lemma fold_remove_shift:
  "fold (remove_shift d) [length P..<length P + length S] (P @ S, m, ev) =
     (P @ map (shifted d) S, index_ids (length P) (map row_id S) m,
      ev @ map (\<lambda>v. OnRefreshItem (shifted d v) False) S)"
proof (induction S arbitrary: P m ev)
  case Nil
  then show ?case by simp
next
  case (Cons v S)
  have "fold (remove_shift d) [length P..<length P + length (v # S)] (P @ v # S, m, ev) =
        fold (remove_shift d) [length (P @ [shifted d v])..<length (P @ [shifted d v]) + length S]
          ((P @ [shifted d v]) @ S, m(row_id v \<mapsto> length P), ev @ [OnRefreshItem (shifted d v) False])"
    using upt_add_Cons [of "length P" "length S"]
    by (simp add: remove_shift_def shifted_def row_id_def Let_def del: upt_Suc)
  also have "\<dots> = ((P @ [shifted d v]) @ map (shifted d) S,
                   index_ids (length (P @ [shifted d v])) (map row_id S) (m(row_id v \<mapsto> length P)),
                   (ev @ [OnRefreshItem (shifted d v) False]) @ map (\<lambda>v. OnRefreshItem (shifted d v) False) S)"
    by (rule Cons.IH)
  finally show ?case by simp
qed


lemma remove_scan_run:
  "remove_scan xs rows idx sizeDiff run ev = (c, idx', sizeDiff', None, ev', rest) \<Longrightarrow>
   sizeDiff' = sizeDiff \<and> run = None"
  by (induction xs arbitrary: idx sizeDiff run ev)
    (auto simp: Let_def split: if_splits option.splits)

lemma onRemoveItems_eq:
  assumes idx: "map (indexes h) xs = map Some [s..<s + length xs]"
    and ne: "[] \<notin> set xs"
    and len: "s + length xs \<le> length (heightMap h)"
    and nz: "sum_list (map height (take (length xs) (drop s (heightMap h)))) \<noteq> 0"
  shows "onRemoveItems xs h =
     \<lparr>returned = (),
      hm = \<lparr>heightMap = take s (heightMap h)
               @ map (shifted (- sum_list (map height (take (length xs) (drop s (heightMap h))))))
                   (drop (s + length xs) (heightMap h)),
            indexes = index_ids s (map row_id (drop (s + length xs) (heightMap h)))
                        (indexes h |` (- set xs))\<rparr>,
      emitted = map OnRemoveItem (take (length xs) (drop s (heightMap h)))
        @ map (\<lambda>v. OnRefreshItem
                 (shifted (- sum_list (map height (take (length xs) (drop s (heightMap h))))) v)
                 False)
            (drop (s + length xs) (heightMap h)),
      console = [], unread = []\<rparr>"
proof -
  let ?rows = "heightMap h"
  let ?ks = "[s..<s + length xs]"
  let ?M = "take (length xs) (drop s ?rows)"
  let ?d = "- sum_list (map height ?M)"
  have d: "distinct xs"
    using distinct_map [of "indexes h" xs] idx by (simp add: distinct_map)
  have nth: "map (\<lambda>k. f (?rows ! k)) ?ks = map f ?M" for f :: "view_item \<Rightarrow> 'b"
    using len by (intro nth_equalityI) (auto simp: nth_map_upt)
  have xs: "xs \<noteq> []" using nz by auto
  then obtain k ks' where ks: "?ks = k # ks'" by (cases ?ks) auto
  then have k: "k = s" using xs by (simp add: upt_conv_Cons del: upt_Suc)
  have last: "last ?ks = s + length xs - Suc 0" using xs by simp
  have run: "run_after None ?ks = Some (s, s + length xs - Suc 0)"
    using run_after_None [of k ks'] ks k last by simp
  have scan: "remove_scan xs ?rows (indexes h) 0 None [] =
        (True, indexes h |` (- set xs), ?d, Some (s, s + length xs - Suc 0), map OnRemoveItem ?M, [])"
    using remove_scan_prefix [OF idx d ne, of ?rows "[]" 0 None "[]"] len run
    by (simp add: nth)
  let ?P = "take s ?rows"
  let ?S = "drop (s + length xs) ?rows"
  have sp: "splice s (Suc (s + length xs - Suc 0) - s) [] ?rows = ?P @ ?S"
    using xs by (simp add: splice_def)
  have lp: "length ?P = s" "length (?P @ ?S) = length ?P + length ?S" using len by simp_all
  have f: "fold (remove_shift ?d) [s..<length (?P @ ?S)] (?P @ ?S, indexes h |` (- set xs), map OnRemoveItem ?M) =
           (?P @ map (shifted ?d) ?S, index_ids s (map row_id ?S) (indexes h |` (- set xs)),
            map OnRemoveItem ?M @ map (\<lambda>v. OnRefreshItem (shifted ?d v) False) ?S)"
    using fold_remove_shift [of ?d ?P ?S] lp by simp
  show ?thesis
    using nz f by (simp add: onRemoveItems_def scan sp Let_def del: length_append)
qed

text \<open>
  A removal of a run keeps the rows contiguous and the index valid, whether it splices or
  returns early.
\<close>

lemma remove_scan_takeWhile:
  "remove_scan xs rows idx sizeDiff run ev = (c, idx', sizeDiff', run', ev', rest) \<Longrightarrow>
   \<exists>rest'. remove_scan (takeWhile (\<lambda>x. x \<noteq> []) xs) rows idx sizeDiff run ev =
     (c, idx', sizeDiff', run', ev', rest')"
proof (induction xs arbitrary: idx sizeDiff run ev)
  case Nil
  then show ?case by simp
next
  case (Cons x xs)
  show ?case
  proof (cases "x = []")
    case True
    then show ?thesis using Cons.prems by simp
  next
    case False
    show ?thesis
    proof (cases "idx x")
      case None
      then show ?thesis using Cons.prems False by simp
    next
      case (Some k)
      show ?thesis
      proof (cases "k < length rows")
        case True
        then show ?thesis using Cons.prems False Some Cons.IH by (simp add: Let_def)
      next
        case False
        then show ?thesis using Cons.prems \<open>x \<noteq> []\<close> Some by simp
      qed
    qed
  qed
qed

lemma onRemoveItems_takeWhile:
  "hm (onRemoveItems xs h) = hm (onRemoveItems (takeWhile (\<lambda>x. x \<noteq> []) xs) h)"
proof -
  obtain c idx' sd' run' ev' rest where
    a: "remove_scan xs (heightMap h) (indexes h) 0 None [] = (c, idx', sd', run', ev', rest)"
    by (cases "remove_scan xs (heightMap h) (indexes h) 0 None []") auto
  then obtain rest' where
    b: "remove_scan (takeWhile (\<lambda>x. x \<noteq> []) xs) (heightMap h) (indexes h) 0 None [] =
        (c, idx', sd', run', ev', rest')"
    using remove_scan_takeWhile by blast
  show ?thesis
    unfolding onRemoveItems_def a b
    by (simp add: Let_def split: option.splits prod.splits)
qed

lemma onRemoveItems_zero:
  assumes "map (indexes h) xs = map Some ks" and "distinct xs" and "[] \<notin> set xs"
    and "\<forall>k\<in>set ks. k < length (heightMap h)"
    and "sum_list (map (\<lambda>k. height (heightMap h ! k)) ks) = 0"
  shows "onRemoveItems xs h =
     \<lparr>returned = (), hm = h\<lparr>indexes := indexes h |` (- set xs)\<rparr>,
      emitted = map (\<lambda>k. OnRemoveItem (heightMap h ! k)) ks, console = [], unread = []\<rparr>"
  using remove_scan_prefix [OF assms(1-4), of "[]" 0 None "[]"] assms(5)
  by (simp add: onRemoveItems_def)

lemma contiguous_run_effective:
  assumes "contiguous_run h xs" and "index_valid h"
  shows "\<exists>s. map (indexes h) (takeWhile (\<lambda>x. x \<noteq> []) xs) =
               map Some [s..<s + length (takeWhile (\<lambda>x. x \<noteq> []) xs)] \<and>
             s + length (takeWhile (\<lambda>x. x \<noteq> []) xs) \<le> length (heightMap h)"
proof (cases "takeWhile (\<lambda>x. x \<noteq> []) xs = []")
  case True
  then show ?thesis by (intro exI [of _ 0]) simp
next
  case False
  let ?eff = "takeWhile (\<lambda>x. x \<noteq> []) xs"
  let ?n = "length ?eff"
  from False obtain x xs' where xs: "xs = x # xs'" by (cases xs) auto
  then obtain s where s: "map (indexes h) xs = map Some [s..<s + length xs]"
    using assms(1) by (auto simp: contiguous_run_def split: option.splits)
  have n: "?n \<le> length xs" by (rule length_takeWhile_le)
  have eff: "?eff = take ?n xs" by (rule takeWhile_eq_take)
  have le: "s + ?n \<le> s + length xs" using n by simp
  have "map (indexes h) (take ?n xs) = take ?n (map (indexes h) xs)" by (simp only: take_map)
  also have "\<dots> = take ?n (map Some [s..<s + length xs])" by (simp only: s)
  also have "\<dots> = map Some (take ?n [s..<s + length xs])" by (simp only: take_map)
  also have "\<dots> = map Some [s..<s + ?n]" by (simp only: take_upt [OF le])
  finally have "map (indexes h) (take ?n xs) = map Some [s..<s + ?n]" .
  then have m: "map (indexes h) ?eff = map Some [s..<s + ?n]" by (simp only: eff [symmetric])
  obtain n' where n': "?n = Suc n'" using False by (cases ?eff) auto
  have "map (indexes h) ?eff ! n' = map Some [s..<s + ?n] ! n'" by (simp only: m)
  then have "indexes h (?eff ! n') = Some (s + n')" using n' by (simp del: upt_Suc)
  then have "s + n' < length (heightMap h)" using assms(2) by (auto simp: index_valid_def)
  then have "s + ?n \<le> length (heightMap h)" using n' by simp
  then show ?thesis using m by (intro exI [of _ s]) simp
qed

lemma remove_preserves:
  assumes c: "contiguous h" and v: "index_valid h" and r: "contiguous_run h xs"
  shows "contiguous (hm (onRemoveItems xs h)) \<and> index_valid (hm (onRemoveItems xs h))"
proof -
  let ?rows = "heightMap h"
  let ?eff = "takeWhile (\<lambda>x. x \<noteq> []) xs"
  let ?n = "length ?eff"
  obtain s where m: "map (indexes h) ?eff = map Some [s..<s + ?n]"
    and len: "s + ?n \<le> length ?rows"
    using contiguous_run_effective [OF r v] by blast
  have ne: "[] \<notin> set ?eff" by (auto dest: set_takeWhileD)
  have d: "distinct ?eff" using distinct_map [of "indexes h" ?eff] m by (simp add: distinct_map)
  have b: "\<forall>k\<in>set [s..<s + ?n]. k < length ?rows" using len by auto
  let ?M = "take ?n (drop s ?rows)"
  have nth: "map (\<lambda>k. height (?rows ! k)) [s..<s + ?n] = map height ?M"
    using len by (intro nth_equalityI) (auto simp: nth_map_upt)
  have sub: "index_valid (h\<lparr>indexes := indexes h |` (- set ?eff)\<rparr>)"
    using v by (auto simp: index_valid_def restrict_map_def split: if_splits)
  show ?thesis
  proof (cases "sum_list (map height ?M) = 0")
    case True
    have "hm (onRemoveItems ?eff h) = h\<lparr>indexes := indexes h |` (- set ?eff)\<rparr>"
      using onRemoveItems_zero [OF m d ne b] True nth by simp
    then show ?thesis
      using c sub by (simp add: onRemoveItems_takeWhile [of xs] contiguous_def)
  next
    case False
    let ?P = "take s ?rows" and ?T = "drop (s + ?n) ?rows"
    let ?d = "- sum_list (map height ?M)"
    have e: "hm (onRemoveItems ?eff h) =
       \<lparr>heightMap = ?P @ map (shifted ?d) ?T,
        indexes = index_ids (length ?P) (map row_id (map (shifted ?d) ?T))
                    (indexes h |` (- set ?eff))\<rparr>"
      using len by (simp add: onRemoveItems_eq [OF m ne len False])
    have rows: "?rows = ?P @ ?M @ ?T"
      by (metis append_take_drop_id drop_drop add.commute)
    have "contiguous_from 0 (?P @ ?M @ ?T)" using c rows by (simp add: contiguous_def)
    then have cc: "contiguous_from 0 (?P @ map (shifted ?d) ?T)"
      by (simp add: contiguous_from_append contiguous_from_shifted)
    have "\<forall>x k. (indexes h |` (- set ?eff)) x = Some k \<longrightarrow>
        (k < length ?P \<and> row_id (?P ! k) = x) \<or> x \<in> row_id ` set (map (shifted ?d) ?T)"
    proof (intro allI impI)
      fix x k assume a: "(indexes h |` (- set ?eff)) x = Some k"
      then have x: "x \<notin> set ?eff" "indexes h x = Some k"
        by (auto simp: restrict_map_def split: if_splits)
      then have k: "k < length ?rows" "row_id (?rows ! k) = x"
        using v by (auto simp: index_valid_def)
      consider "k < s" | "s \<le> k" "k < s + ?n" | "s + ?n \<le> k" by linarith
      then show "(k < length ?P \<and> row_id (?P ! k) = x) \<or> x \<in> row_id ` set (map (shifted ?d) ?T)"
      proof cases
        case 1
        then show ?thesis using k by simp
      next
        case 2
        then have "map (indexes h) ?eff ! (k - s) = Some k" unfolding m by (simp del: upt_Suc)
        then have "indexes h (?eff ! (k - s)) = Some k" using 2 by simp
        then have "row_id (?rows ! k) = ?eff ! (k - s)" using v by (auto simp: index_valid_def)
        then have "x \<in> set ?eff" using k(2) 2 by (metis nth_mem less_diff_conv2 add.commute)
        then show ?thesis using x(1) by simp
      next
        case 3
        then have "?rows ! k = ?T ! (k - (s + ?n))" "k - (s + ?n) < length ?T" using k(1) by simp_all
        then have "?rows ! k \<in> set ?T" by (metis nth_mem)
        then have "x \<in> row_id ` set ?T" using k(2) by blast
        then show ?thesis by (auto simp: image_image)
      qed
    qed
    then have "index_valid (hm (onRemoveItems ?eff h))"
      unfolding e by (rule index_valid_reindex)
    then show ?thesis using cc e by (simp add: onRemoveItems_takeWhile [of xs] contiguous_def)
  qed
qed

text \<open>
  I2 after a removal, and insertion followed by removal: when the extent removed is not
  zero, the removal of a run keeps I2, and removing the identities just inserted gives the
  state of before the insertion back. Both fail when the extent removed is zero (C2 and C4
  below).
\<close>

lemma run_row_ids:
  assumes v: "index_valid h" and m: "map (indexes h) xs = map Some [s..<s + length xs]"
    and len: "s + length xs \<le> length (heightMap h)"
  shows "map row_id (take (length xs) (drop s (heightMap h))) = xs"
proof (rule nth_equalityI)
  show "length (map row_id (take (length xs) (drop s (heightMap h)))) = length xs"
    using len by simp
next
  fix j assume "j < length (map row_id (take (length xs) (drop s (heightMap h))))"
  then have j: "j < length xs" by simp
  have "map (indexes h) xs ! j = map Some [s..<s + length xs] ! j" by (simp only: m)
  then have "indexes h (xs ! j) = Some (s + j)" using j by (simp del: upt_Suc)
  then have "row_id (heightMap h ! (s + j)) = xs ! j" using v by (auto simp: index_valid_def)
  then show "map row_id (take (length xs) (drop s (heightMap h))) ! j = xs ! j"
    using j len by simp
qed

lemma remove_consistent_run:
  assumes c: "contiguous h" and v: "index_consistent h"
    and m: "map (indexes h) xs = map Some [s..<s + length xs]"
    and ne: "[] \<notin> set xs" and len: "s + length xs \<le> length (heightMap h)"
    and nz: "sum_list (map height (take (length xs) (drop s (heightMap h)))) \<noteq> 0"
  shows "index_consistent (hm (onRemoveItems xs h))"
proof -
  let ?rows = "heightMap h"
  have iv: "index_valid h" using v by (simp add: index_consistent_iff)
  define P where "P = take s ?rows"
  define M where "M = take (length xs) (drop s ?rows)"
  define T where "T = drop (s + length xs) ?rows"
  define d where "d = - sum_list (map height M)"
  have rows: "?rows = P @ M @ T"
    unfolding P_def M_def T_def by (metis append_take_drop_id drop_drop add.commute)
  have lp: "length P = s" using len by (simp add: P_def)
  have ids: "map row_id M = xs" unfolding M_def by (rule run_row_ids [OF iv m len])
  have e: "hm (onRemoveItems xs h) =
     \<lparr>heightMap = P @ map (shifted d) T,
      indexes = index_ids (length P) (map row_id (map (shifted d) T)) (indexes h |` (- set xs))\<rparr>"
    using len by (simp add: onRemoveItems_eq [OF m ne len nz] P_def M_def T_def d_def)
  have dr: "distinct (map row_id (P @ M @ T))" using index_consistent_distinct [OF v] rows by simp
  then have dd: "distinct (map row_id (P @ map (shifted d) T))" by auto
  have pp: "\<forall>k<length P. (indexes h |` (- set xs)) (row_id (P ! k)) = Some k"
  proof (intro allI impI)
    fix k assume k: "k < length P"
    then have "row_id (P ! k) \<in> set (map row_id P)" by simp
    then have "row_id (P ! k) \<notin> set (map row_id M)" using dr by auto
    then have "row_id (P ! k) \<notin> set xs" using ids by metis
    moreover have "indexes h (row_id (P ! k)) = Some k"
      using v k lp len by (simp add: index_consistent_def P_def)
    ultimately show "(indexes h |` (- set xs)) (row_id (P ! k)) = Some k"
      by (simp add: restrict_map_def)
  qed
  have cr: "contiguous_run h xs"
  proof (cases xs)
    case Nil
    then show ?thesis by (simp add: contiguous_run_def)
  next
    case (Cons x xs')
    then have "indexes h x = Some s" using m by (simp add: upt_conv_Cons del: upt_Suc)
    then show ?thesis using m Cons by (simp add: contiguous_run_def)
  qed
  show ?thesis
    unfolding index_consistent_iff
    using remove_preserves [OF c iv cr] reindex_consistent [OF dd pp]
    by (simp add: e)
qed

lemma insert_remove_roundtrip:
  assumes c: "contiguous h" and v: "index_consistent h" and a: "anchor_present h afterItemId"
    and d: "distinct (map id_str its)" and ne: "[] \<notin> set (map id_str its)"
    and f: "set (map id_str its) \<inter> row_id ` set (heightMap h) = {}"
    and nz: "total_height its \<noteq> 0"
  shows "hm (onRemoveItems (map id_str its) (hm (onInsertItems its afterItemId h))) = h"
proof -
  let ?rows = "heightMap h"
  let ?xs = "map id_str its"
  have iv: "index_valid h" using v by (simp add: index_consistent_iff)
  obtain i0 base where an: "insert_anchor h afterItemId = Some (i0, base)"
    using a iv by (cases afterItemId) (auto simp: anchor_present_def insert_anchor_def index_valid_def)
  have i0: "i0 \<le> length ?rows" using insert_anchor_base [OF c an] by simp
  define P where "P = take i0 ?rows"
  define T where "T = drop i0 ?rows"
  define N where "N = new_rows base its"
  define H where "H = total_height its"
  have rows: "?rows = P @ T" and lp: "length P = i0" using i0 by (simp_all add: P_def T_def)
  have ln: "length N = length its" "map row_id N = ?xs" "sum_list (map height N) = H"
    by (simp_all add: N_def H_def)
  define h1 where "h1 = hm (onInsertItems its afterItemId h)"
  have e1: "h1 = \<lparr>heightMap = P @ N @ map (shifted H) T,
                   indexes = index_ids i0 (?xs @ map row_id T) (indexes h)\<rparr>"
    unfolding h1_def by (simp add: onInsertItems_eq [OF an] P_def T_def N_def H_def)
  have dT: "distinct (map row_id (P @ T))" using index_consistent_distinct [OF v] rows by simp
  have fr: "set ?xs \<inter> row_id ` set (P @ T) = {}" using f rows by simp
  have dall: "distinct (?xs @ map row_id T)" using d dT fr by (auto simp: image_Un)
  have m1: "map (indexes h1) ?xs = map Some [i0..<i0 + length ?xs]"
  proof (rule nth_equalityI)
    show "length (map (indexes h1) ?xs) = length (map Some [i0..<i0 + length ?xs])" by simp
  next
    fix j assume "j < length (map (indexes h1) ?xs)"
    then have j: "j < length ?xs" by simp
    then have "index_ids i0 (?xs @ map row_id T) (indexes h) ((?xs @ map row_id T) ! j) = Some (i0 + j)"
      using index_ids_distinct [OF dall, of j i0 "indexes h"] by simp
    then have "indexes h1 (?xs ! j) = Some (i0 + j)" using j by (simp add: e1 nth_append)
    then show "map (indexes h1) ?xs ! j = map Some [i0..<i0 + length ?xs] ! j"
      using j by (simp del: upt_Suc)
  qed
  have len1: "i0 + length ?xs \<le> length (heightMap h1)" using lp ln by (simp add: e1)
  have tk: "take (length ?xs) (drop i0 (heightMap h1)) = N"
    and dp: "drop (i0 + length ?xs) (heightMap h1) = map (shifted H) T"
    and tp: "take i0 (heightMap h1) = P"
    using lp ln by (simp_all add: e1)
  have nz1: "sum_list (map height (take (length ?xs) (drop i0 (heightMap h1)))) \<noteq> 0"
    unfolding tk using nz ln H_def by simp
  have e2: "hm (onRemoveItems ?xs h1) =
     \<lparr>heightMap = P @ T,
      indexes = index_ids i0 (map row_id T) (indexes h1 |` (- set ?xs))\<rparr>"
    unfolding onRemoveItems_eq [OF m1 ne len1 nz1] tk dp tp using ln by (simp add: comp_def)
  have "index_ids i0 (map row_id T) (indexes h1 |` (- set ?xs)) x = indexes h x" for x
  proof (cases "x \<in> set (map row_id T)")
    case True
    then obtain k where k: "k < length (map row_id T)" "map row_id T ! k = x"
      "index_ids i0 (map row_id T) (indexes h1 |` (- set ?xs)) x = Some (i0 + k)"
      using index_ids_in by metis
    have "i0 + k < length ?rows" "row_id (?rows ! (i0 + k)) = x"
      using k lp rows by (simp_all add: nth_append)
    then have "indexes h x = Some (i0 + k)" using v by (auto simp: index_consistent_def)
    then show ?thesis using k(3) by simp
  next
    case False
    show ?thesis
    proof (cases "x \<in> set ?xs")
      case True
      then have "x \<notin> row_id ` set ?rows" using f by auto
      then have "indexes h x = None" using v by (auto simp: index_consistent_def)
      then show ?thesis using True False by (simp add: index_ids_notin restrict_map_def)
    next
      case nx: False
      then show ?thesis using False by (simp add: index_ids_notin restrict_map_def e1)
    qed
  qed
  then have "index_ids i0 (map row_id T) (indexes h1 |` (- set ?xs)) = indexes h" by (rule ext)
  then show ?thesis unfolding h1_def [symmetric] e2 using rows by simp
qed




text \<open>
  C2 at its failing input. A row of height 0 is inserted into the empty map and then
  removed, a run of one row: \<open>sizeDiff\<close> is 0 after the loop, so the call returns before the
  splice, with nothing logged. The loop has deleted the index entry and called
  \<open>onRemoveItem\<close>, and the row is still in the sequence, with no index entry.
\<close>

theorem remove_zero_extent_run:
  "hm (onInsertItems [item_z] None new_HeightMap) = zero_row_state \<and>
   contiguous_run zero_row_state [''z''] \<and>
   console (onRemoveItems [''z''] zero_row_state) = [] \<and>
   emitted (onRemoveItems [''z''] zero_row_state) =
     [OnRemoveItem \<lparr>model = item_z, top_px = 0, height = 0\<rparr>] \<and>
   heightMap (hm (onRemoveItems [''z''] zero_row_state)) =
     [\<lparr>model = item_z, top_px = 0, height = 0\<rparr>] \<and>
   indexes (hm (onRemoveItems [''z''] zero_row_state)) ''z'' = None"
proof -
  have a: "insert_anchor new_HeightMap None = Some (0, 0)" by (simp add: insert_anchor_def)
  have "hm (onInsertItems [item_z] None new_HeightMap) = zero_row_state"
    unfolding onInsertItems_eq [OF a]
    by (simp add: new_HeightMap_def zero_row_state_def item_z_def)
  moreover have "onRemoveItems [''z''] zero_row_state =
     \<lparr>returned = (), hm = zero_row_state\<lparr>indexes := (indexes zero_row_state)(''z'' := None)\<rparr>,
      emitted = [OnRemoveItem \<lparr>model = item_z, top_px = 0, height = 0\<rparr>],
      console = [], unread = []\<rparr>"
    by (simp add: onRemoveItems_def zero_row_state_def item_z_def)
  moreover have "contiguous_run zero_row_state [''z'']"
    by (simp add: contiguous_run_def zero_row_state_def)
  ultimately show ?thesis by (simp add: zero_row_state_def)
qed

text \<open>
  C4 at its failing input. Inserting one item of height 0 into the empty map and removing
  its identity does not give the empty map back: the row stays in the sequence.
\<close>

theorem insert_remove_zero_height:
  "heightMap (hm (onRemoveItems (map id_str [item_z])
      (hm (onInsertItems [item_z] None new_HeightMap)))) =
     [\<lparr>model = item_z, top_px = 0, height = 0\<rparr>] \<and>
   heightMap new_HeightMap = [] \<and>
   hm (onRemoveItems (map id_str [item_z]) (hm (onInsertItems [item_z] None new_HeightMap)))
     \<noteq> new_HeightMap"
proof -
  have a: "insert_anchor new_HeightMap None = Some (0, 0)" by (simp add: insert_anchor_def)
  have i: "hm (onInsertItems [item_z] None new_HeightMap) = zero_row_state"
    unfolding onInsertItems_eq [OF a]
    by (simp add: new_HeightMap_def zero_row_state_def item_z_def)
  have r: "heightMap (hm (onRemoveItems (map id_str [item_z]) zero_row_state)) =
     [\<lparr>model = item_z, top_px = 0, height = 0\<rparr>]"
    by (simp add: onRemoveItems_def zero_row_state_def item_z_def)
  have n: "heightMap new_HeightMap = []" by (simp add: new_HeightMap_def)
  have "heightMap (hm (onRemoveItems (map id_str [item_z]) zero_row_state)) \<noteq> heightMap new_HeightMap"
    unfolding r n by simp
  then have "hm (onRemoveItems (map id_str [item_z]) zero_row_state) \<noteq> new_HeightMap" by auto
  then show ?thesis unfolding i using r n by simp
qed

section \<open>Refresh\<close>

text \<open>
  The catch-up loop in closed form, the invariant of the refresh loop, and the outcome of
  refreshing one item (\<open>onRefreshItems_single\<close>).
\<close>

lemma fold_refresh_shift:
  "fold (refresh_shift d) [length P..<length P + length S] (P @ S @ R, ev) =
     (P @ map (shifted d) S @ R, ev @ map (\<lambda>v. OnRefreshItem (shifted d v) False) S)"
proof (induction S arbitrary: P ev)
  case Nil
  then show ?case by simp
next
  case (Cons v S)
  have "fold (refresh_shift d) [length P..<length P + length (v # S)] (P @ (v # S) @ R, ev) =
        fold (refresh_shift d) [length (P @ [shifted d v])..<length (P @ [shifted d v]) + length S]
          ((P @ [shifted d v]) @ S @ R, ev @ [OnRefreshItem (shifted d v) False])"
    using upt_add_Cons [of "length P" "length S"]
    by (simp add: refresh_shift_def shifted_def Let_def del: upt_Suc)
  also have "\<dots> = ((P @ [shifted d v]) @ map (shifted d) S @ R,
                   (ev @ [OnRefreshItem (shifted d v) False]) @ map (\<lambda>v. OnRefreshItem (shifted d v) False) S)"
    by (rule Cons.IH)
  finally show ?case by simp
qed

lemma refresh_catchup_rows:
  assumes "j = None \<longrightarrow> c = 0" and "lower j \<le> i" and "i \<le> length rows"
  shows "fst (refresh_catchup c j i (rows, ev)) =
         take (lower j) rows @ map (shifted c) (take (i - lower j) (drop (lower j) rows)) @ drop i rows"
proof (cases "c = 0")
  case True
  then have "fst (refresh_catchup c j i (rows, ev)) = rows"
    by (simp add: refresh_catchup_def split: option.splits)
  moreover have "rows = take (lower j) rows @ map (shifted 0) (take (i - lower j) (drop (lower j) rows)) @ drop i rows"
    using split3 [OF assms(2,3)] by (simp only: map_shifted_0)
  ultimately show ?thesis using True by (simp only: )
next
  case False
  then obtain j0 where j: "j = Some j0" using assms(1) by (cases j) auto
  let ?P = "take j0 rows" and ?S = "take (i - j0) (drop j0 rows)" and ?R = "drop i rows"
  have a: "j0 \<le> i" using assms(2) j by (simp add: lower_def)
  have r: "rows = ?P @ ?S @ ?R" using split3 [OF a assms(3)] .
  have l: "length ?P = j0" "length ?P + length ?S = i" using a assms(3) by simp_all
  have "fold (refresh_shift c) [j0..<i] (?P @ ?S @ ?R, ev) =
        (?P @ map (shifted c) ?S @ ?R, ev @ map (\<lambda>v. OnRefreshItem (shifted c v) False) ?S)"
    using fold_refresh_shift [of c ?P ?S ?R ev] l by simp
  then have "fold (refresh_shift c) [j0..<i] (rows, ev) =
        (?P @ map (shifted c) ?S @ ?R, ev @ map (\<lambda>v. OnRefreshItem (shifted c v) False) ?S)"
    using r by simp
  then show ?thesis
    using False j assms(3) by (simp add: refresh_catchup_def lower_def min_def)
qed

lemma refresh_catchup_length [simp]:
  "length (fst (refresh_catchup c j i (rows, ev))) = length rows"
proof -
  have "length (fst (fold (refresh_shift c) ks (rows, ev))) = length rows" for ks
    by (induction ks arbitrary: rows ev) (auto simp: refresh_shift_def Let_def)
  then show ?thesis by (simp add: refresh_catchup_def split: option.splits)
qed

lemma refresh_step:
  assumes inv: "refresh_inv rows j c" and lo: "lower j \<le> i" and i: "i < length rows"
    and r1: "rows1 = fst (refresh_catchup c j i (rows, ev))"
    and v': "v' = (rows1 ! i)\<lparr>top_px := top_px (rows1 ! i) + c, height := nh\<rparr>"
  shows "refresh_inv (rows1[i := v']) (Some (Suc i)) (c + (nh - height (rows1 ! i)))"
    and "map row_id (rows1[i := v']) = map row_id rows"
proof -
  let ?P = "take (lower j) rows" and ?S = "take (i - lower j) (drop (lower j) rows)"
  let ?R = "drop (Suc i) rows"
  let ?v = "rows ! i"
  have dr: "drop i rows = ?v # ?R" using i by (simp add: Cons_nth_drop_Suc)
  have rows: "rows = ?P @ ?S @ ?v # ?R" using split3 [OF lo, of rows] i dr by simp
  have l: "length ?P + length ?S = i" "length ?P = lower j" using lo i by simp_all
  have rows1: "rows1 = ?P @ map (shifted c) ?S @ ?v # ?R"
    using refresh_catchup_rows [of j c i rows ev] inv lo i r1 dr by (simp add: refresh_inv_def)
  have vi: "rows1 ! i = ?v" using rows1 l by (simp add: nth_append)
  define A where "A = ?P @ map (shifted c) ?S @ [v']"
  have upd: "rows1[i := v'] = A @ ?R"
    using rows1 l by (simp add: list_update_append A_def)
  have len: "length A = Suc i" using l by (simp add: A_def)
  have tk: "take (Suc i) (rows1[i := v']) = A"
    and dp: "drop (Suc i) (rows1[i := v']) = ?R"
    unfolding upd len [symmetric] by simp_all
  have c0: "contiguous_from 0 ?P"
    and c1: "contiguous_from (sum_list (map height ?P) - c) (?S @ ?v # ?R)"
    using inv rows unfolding refresh_inv_def
    by (simp, metis append_take_drop_id same_append_eq)
  have len1: "length rows1 = length rows" using r1 by simp
  have lo': "lower (Some (Suc i)) = Suc i" by (simp add: lower_def)
  have cA: "contiguous_from 0 A"
    using c0 c1
    by (simp add: A_def v' vi contiguous_from_append contiguous_from_shifted algebra_simps)
  have sA: "sum_list (map height A) =
            sum_list (map height ?P) + sum_list (map height ?S) + nh"
    by (simp add: A_def v')
  have cR: "contiguous_from (sum_list (map height A) - (c + (nh - height ?v))) ?R"
    using c1 by (simp add: sA contiguous_from_append algebra_simps)
  show "refresh_inv (rows1[i := v']) (Some (Suc i)) (c + (nh - height (rows1 ! i)))"
    unfolding refresh_inv_def lo' tk dp vi using cA cR i len1 by simp
  have "map row_id (A @ ?R) = map row_id (?P @ ?S @ ?v # ?R)"
    by (simp add: A_def v' vi row_id_def)
  then show "map row_id (rows1[i := v']) = map row_id rows"
    unfolding upd using rows by simp
qed

lemma refresh_final:
  assumes inv: "refresh_inv rows j c"
  shows "contiguous_from 0 (fst (refresh_catchup c j (length rows) (rows, ev)))"
    and "map row_id (fst (refresh_catchup c j (length rows) (rows, ev))) = map row_id rows"
proof -
  let ?P = "take (lower j) rows" and ?S = "drop (lower j) rows"
  have e: "fst (refresh_catchup c j (length rows) (rows, ev)) = ?P @ map (shifted c) ?S"
    using refresh_catchup_rows [of j c "length rows" rows ev] inv by (simp add: refresh_inv_def)
  show "contiguous_from 0 (fst (refresh_catchup c j (length rows) (rows, ev)))"
    using inv by (simp add: e refresh_inv_def contiguous_from_append contiguous_from_shifted)
  have "map row_id (?P @ map (shifted c) ?S) = map row_id (?P @ ?S)"
    by (simp del: append_take_drop_id)
  then show "map row_id (fst (refresh_catchup c j (length rows) (rows, ev))) = map row_id rows"
    by (simp only: e append_take_drop_id)
qed

lemma refresh_scan_inv:
  assumes "map (\<lambda>it. idx (id_str it)) its = map Some ks" and "sorted_wrt (<) ks"
    and "\<forall>k\<in>set ks. lower j \<le> k \<and> k < length rows" and "refresh_inv rows j c"
  shows "\<exists>rows' j' c' ev'. refresh_scan its idx rows j c ev = Inr (rows', j', c', ev') \<and>
           refresh_inv rows' j' c' \<and> map row_id rows' = map row_id rows"
  using assms
proof (induction its arbitrary: ks rows j c ev)
  case Nil
  then show ?case by simp
next
  case (Cons it its)
  then obtain k ks' where ks: "ks = k # ks'" by (cases ks) auto
  have k: "idx (id_str it) = Some k" "lower j \<le> k" "k < length rows"
    using Cons.prems ks by auto
  obtain rows1 ev1 where cu: "refresh_catchup c j k (rows, ev) = (rows1, ev1)"
    by (cases "refresh_catchup c j k (rows, ev)")
  then have r1: "rows1 = fst (refresh_catchup c j k (rows, ev))" by simp
  then have l1: "length rows1 = length rows" by simp
  define v' where "v' = (rows1 ! k)\<lparr>top_px := top_px (rows1 ! k) + c, height := getHeight it\<rparr>"
  define c' where "c' = c + (getHeight it - height (rows1 ! k))"
  define ev' where "ev' = ev1 @ [OnRefreshItem v' True]"
  have step: "refresh_scan (it # its) idx rows j c ev =
              refresh_scan its idx (rows1[k := v']) (Some (Suc k)) c' ev'"
    using k cu l1 by (simp add: Let_def v'_def c'_def ev'_def)
  note st = refresh_step [OF Cons.prems(4) k(2,3) r1 v'_def]
  have inv': "refresh_inv (rows1[k := v']) (Some (Suc k)) c'"
    using st(1) by (simp add: c'_def)
  have m: "map (\<lambda>it. idx (id_str it)) its = map Some ks'" using Cons.prems(1) ks by simp
  have s: "sorted_wrt (<) ks'" using Cons.prems(2) ks by simp
  have b: "\<forall>k'\<in>set ks'. lower (Some (Suc k)) \<le> k' \<and> k' < length (rows1[k := v'])"
    using Cons.prems(2,3) ks l1 by (auto simp: lower_def)
  obtain rows' j' c'' ev'' where
    "refresh_scan its idx (rows1[k := v']) (Some (Suc k)) c' ev' = Inr (rows', j', c'', ev'')"
    "refresh_inv rows' j' c''" "map row_id rows' = map row_id (rows1[k := v'])"
    using Cons.IH [OF m s b inv', of ev'] by blast
  then show ?case using step st(2) by simp
qed

lemma refresh_inv_init: "contiguous_from 0 rows \<Longrightarrow> refresh_inv rows None 0"
  by (simp add: refresh_inv_def lower_def)

lemma onRefreshItems_ok:
  assumes "contiguous h"
    and "map (\<lambda>it. indexes h (id_str it)) its = map Some ks" and "sorted_wrt (<) ks"
    and "\<forall>k\<in>set ks. k < length (heightMap h)"
  shows "returned (onRefreshItems its h) = Inr ()"
    and "contiguous (hm (onRefreshItems its h))"
    and "map row_id (heightMap (hm (onRefreshItems its h))) = map row_id (heightMap h)"
    and "indexes (hm (onRefreshItems its h)) = indexes h"
proof -
  have b: "\<forall>k\<in>set ks. lower None \<le> k \<and> k < length (heightMap h)"
    using assms(4) by (simp add: lower_def)
  obtain rows' j' c' ev' where
    sc: "refresh_scan its (indexes h) (heightMap h) None 0 [] = Inr (rows', j', c', ev')"
    and inv: "refresh_inv rows' j' c'" and ids: "map row_id rows' = map row_id (heightMap h)"
    using refresh_scan_inv [OF assms(2,3) b refresh_inv_init, of "[]"] assms(1)
    by (auto simp: contiguous_def)
  obtain rows2 ev2 where cu: "refresh_catchup c' j' (length rows') (rows', ev') = (rows2, ev2)"
    by (cases "refresh_catchup c' j' (length rows') (rows', ev')")
  then have r2: "rows2 = fst (refresh_catchup c' j' (length rows') (rows', ev'))" by simp
  have e: "onRefreshItems its h =
       \<lparr>returned = Inr (), hm = h\<lparr>heightMap := rows2\<rparr>, emitted = ev2, console = [], unread = []\<rparr>"
    by (simp add: onRefreshItems_def sc cu)
  show "returned (onRefreshItems its h) = Inr ()" by (simp add: e)
  show "contiguous (hm (onRefreshItems its h))"
    using refresh_final(1) [OF inv, of ev'] by (simp add: e contiguous_def r2)
  show "map row_id (heightMap (hm (onRefreshItems its h))) = map row_id (heightMap h)"
    using refresh_final(2) [OF inv, of ev'] ids by (simp add: e r2)
  show "indexes (hm (onRefreshItems its h)) = indexes h" by (simp add: e)
qed

lemma refresh_catchup_tail:
  "refresh_catchup c (Some (length P)) (length (P @ S)) (P @ S, ev) =
     (if c = 0 then (P @ S, ev)
      else (P @ map (shifted c) S, ev @ map (\<lambda>v. OnRefreshItem (shifted c v) False) S))"
  using fold_refresh_shift [of c P S "[]" ev] by (simp add: refresh_catchup_def)

lemma onRefreshItems_single:
  assumes "indexes h (id_str it) = Some i" and "i < length (heightMap h)"
  shows "onRefreshItems [it] h =
     \<lparr>returned = Inr (),
      hm = h\<lparr>heightMap := take i (heightMap h)
              @ (heightMap h ! i)\<lparr>height := getHeight it\<rparr>
              # map (shifted (getHeight it - height (heightMap h ! i))) (drop (Suc i) (heightMap h))\<rparr>,
      emitted = OnRefreshItem ((heightMap h ! i)\<lparr>height := getHeight it\<rparr>) True
        # (if getHeight it = height (heightMap h ! i) then []
           else map (\<lambda>v. OnRefreshItem (shifted (getHeight it - height (heightMap h ! i)) v) False)
                  (drop (Suc i) (heightMap h))),
      console = [], unread = []\<rparr>"
proof -
  let ?rows = "heightMap h"
  let ?v = "(?rows ! i)\<lparr>height := getHeight it\<rparr>"
  let ?d = "getHeight it - height (?rows ! i)"
  let ?P = "take i ?rows @ [?v]" and ?S = "drop (Suc i) ?rows"
  have u: "?rows[i := ?v] = ?P @ ?S" using assms(2) by (simp add: upd_conv_take_nth_drop)
  have l: "length ?P = Suc i" "length ?P + length ?S = length ?rows" using assms(2) by simp_all
  have sc: "refresh_scan [it] (indexes h) ?rows None 0 [] =
        Inr (?P @ ?S, Some (Suc i), ?d, [OnRefreshItem ?v True])"
    using assms u by (simp add: refresh_catchup_def Let_def)
  have f: "refresh_catchup ?d (Some (Suc i)) (length (?P @ ?S)) (?P @ ?S, [OnRefreshItem ?v True]) =
     (if ?d = 0 then (?P @ ?S, [OnRefreshItem ?v True])
      else (?P @ map (shifted ?d) ?S,
            [OnRefreshItem ?v True] @ map (\<lambda>v. OnRefreshItem (shifted ?d v) False) ?S))"
    using refresh_catchup_tail [of ?d ?P ?S "[OnRefreshItem ?v True]"] l(1) by (simp only: )
  have "onRefreshItems [it] h =
     (case refresh_catchup ?d (Some (Suc i)) (length (?P @ ?S)) (?P @ ?S, [OnRefreshItem ?v True]) of
        (rows2, ev2) \<Rightarrow>
          \<lparr>returned = Inr (), hm = h\<lparr>heightMap := rows2\<rparr>, emitted = ev2,
           console = [], unread = []\<rparr>)"
    unfolding onRefreshItems_def sc by (simp only: sum.case prod.case)
  then show ?thesis
    unfolding f by (simp split: if_splits)
qed

text \<open>A refresh in strictly ascending slot order keeps the rows contiguous and the index valid.\<close>

lemma refresh_preserves:
  assumes c: "contiguous h" and v: "index_valid h" and a: "ascending_present h its"
  shows "contiguous (hm (onRefreshItems its h)) \<and> index_valid (hm (onRefreshItems its h))"
proof -
  let ?ks = "map (\<lambda>it. the (indexes h (id_str it))) its"
  have m: "map (\<lambda>it. indexes h (id_str it)) its = map Some ?ks"
    using a by (auto simp: ascending_present_def list_all_iff)
  have s: "sorted_wrt (<) ?ks" using a by (simp add: ascending_present_def)
  have b: "\<forall>k\<in>set ?ks. k < length (heightMap h)"
    using a v by (auto simp: ascending_present_def list_all_iff index_valid_def)
  note ok = onRefreshItems_ok [OF c m s b]
  have len: "length (heightMap (hm (onRefreshItems its h))) = length (heightMap h)"
    using ok(3) by (metis length_map)
  have "index_valid (hm (onRefreshItems its h))"
    unfolding index_valid_def
  proof (intro allI impI)
    fix x k assume "indexes (hm (onRefreshItems its h)) x = Some k"
    then have k: "k < length (heightMap h)" "row_id (heightMap h ! k) = x"
      using v ok(4) by (auto simp: index_valid_def)
    have "map row_id (heightMap (hm (onRefreshItems its h))) ! k = map row_id (heightMap h) ! k"
      using ok(3) by simp
    then show "k < length (heightMap (hm (onRefreshItems its h))) \<and>
               row_id (heightMap (hm (onRefreshItems its h)) ! k) = x"
      using k len by simp
  qed
  then show ?thesis using ok(2) by simp
qed

text \<open>
  The slots of a refresh have to ascend strictly: refreshed twice in one call, the row
  \<open>a\<close> of Scenario A gets its own change of height added to its offset, and no row starts
  at 0 any more.
\<close>

lemma refresh_same_item_twice:
  "returned (onRefreshItems [item_a20, item_a20] scenario_A) = Inr () \<and>
   heightMap (hm (onRefreshItems [item_a20, item_a20] scenario_A)) =
     [\<lparr>model = \<lparr>id_str = ''a'', getHeight = 10\<rparr>, top_px = 10, height = 20\<rparr>,
      \<lparr>model = \<lparr>id_str = ''b'', getHeight = 20\<rparr>, top_px = 20, height = 20\<rparr>,
      \<lparr>model = \<lparr>id_str = ''c'', getHeight = 30\<rparr>, top_px = 40, height = 30\<rparr>]"
  by (simp add: onRefreshItems_def refresh_catchup_def refresh_shift_def scenario_A_def
      item_a20_def Let_def upt_rec)

text \<open>I2 after a refresh: neither the index nor the identities of the rows change.\<close>

lemma refresh_consistent:
  assumes c: "contiguous h" and v: "index_consistent h" and a: "ascending_present h its"
  shows "index_consistent (hm (onRefreshItems its h))"
proof -
  have iv: "index_valid h" using v by (simp add: index_consistent_iff)
  let ?ks = "map (\<lambda>it. the (indexes h (id_str it))) its"
  have m: "map (\<lambda>it. indexes h (id_str it)) its = map Some ?ks"
    using a by (auto simp: ascending_present_def list_all_iff)
  have s: "sorted_wrt (<) ?ks" using a by (simp add: ascending_present_def)
  have b: "\<forall>k\<in>set ?ks. k < length (heightMap h)"
    using a iv by (auto simp: ascending_present_def list_all_iff index_valid_def)
  note ok = onRefreshItems_ok [OF c m s b]
  have len: "length (heightMap (hm (onRefreshItems its h))) = length (heightMap h)"
    using ok(3) by (metis length_map)
  have "row_id (heightMap (hm (onRefreshItems its h)) ! k) = row_id (heightMap h ! k)"
    if "k < length (heightMap h)" for k
    using ok(3) that len by (metis nth_map)
  then show ?thesis
    unfolding index_consistent_iff
    using refresh_preserves [OF c iv a] v len ok(4) by (simp add: index_consistent_def)
qed

text \<open>
  Refreshing a single item in exact arithmetic, the index entry of the item naming the row
  at slot \<open>i\<close>: the rows before slot \<open>i\<close> are as they were, the row at slot \<open>i\<close> keeps its
  offset and has the new extent, and every row after it has its offset moved by the change
  of the extent.
\<close>

lemma refresh_single_exact:
  assumes "indexes h (id_str it) = Some i" and "i < length (heightMap h)"
    and "height (heightMap h ! i) = h0" and "getHeight it = h0 + d"
  shows "returned (onRefreshItems [it] h) = Inr () \<and>
         length (heightMap (hm (onRefreshItems [it] h))) = length (heightMap h) \<and>
         (\<forall>k<i. heightMap (hm (onRefreshItems [it] h)) ! k = heightMap h ! k) \<and>
         heightMap (hm (onRefreshItems [it] h)) ! i = (heightMap h ! i)\<lparr>height := h0 + d\<rparr> \<and>
         (\<forall>k. i < k \<and> k < length (heightMap h) \<longrightarrow>
            heightMap (hm (onRefreshItems [it] h)) ! k =
              (heightMap h ! k)\<lparr>top_px := top_px (heightMap h ! k) + d\<rparr>) \<and>
         indexes (hm (onRefreshItems [it] h)) = indexes h"
proof -
  let ?rows = "heightMap h"
  let ?v = "(?rows ! i)\<lparr>height := getHeight it\<rparr>"
  let ?rows' = "take i ?rows @ ?v # map (shifted d) (drop (Suc i) ?rows)"
  have d: "getHeight it - height (?rows ! i) = d" using assms(3,4) by simp
  have e: "onRefreshItems [it] h =
     \<lparr>returned = Inr (), hm = h\<lparr>heightMap := ?rows'\<rparr>,
      emitted = OnRefreshItem ?v True
        # (if getHeight it = height (?rows ! i) then []
           else map (\<lambda>v. OnRefreshItem (shifted d v) False) (drop (Suc i) ?rows)),
      console = [], unread = []\<rparr>"
    using onRefreshItems_single [OF assms(1,2)] unfolding d .
  have len: "length ?rows' = length ?rows" using assms(2) by simp
  have before: "?rows' ! k = ?rows ! k" if "k < i" for k
    using that assms(2) by (simp add: nth_append)
  have at: "?rows' ! i = (?rows ! i)\<lparr>height := h0 + d\<rparr>"
    using assms(2,4) by (simp add: nth_append)
  have after: "?rows' ! k = (?rows ! k)\<lparr>top_px := top_px (?rows ! k) + d\<rparr>"
    if ik: "i < k" "k < length ?rows" for k
  proof -
    obtain m where m: "k = Suc (i + m)" using ik(1) by (auto simp: less_iff_Suc_add)
    then show ?thesis using ik assms(2) by (simp add: nth_append shifted_def min_def)
  qed
  show ?thesis
    unfolding e using len before at after by (simp del: nth_append_length)
qed

section \<open>Reachable states\<close>

text \<open>Scenarios A, B and C of the spec are reached as the spec says.\<close>

lemma scenario_A_insert:
  "hm (onInsertItems [item_a, item_b, item_c] None new_HeightMap) = scenario_A"
proof -
  have a: "insert_anchor new_HeightMap None = Some (0, 0)" by (simp add: insert_anchor_def)
  show ?thesis
    unfolding onInsertItems_eq [OF a]
    by (simp add: new_HeightMap_def scenario_A_def item_a_def item_b_def item_c_def
        numeral_2_eq_2)
qed

lemma scenario_B_refresh: "hm (onRefreshItems [item_b5] scenario_A) = scenario_B"
proof -
  have a: "indexes scenario_A (id_str item_b5) = Some 1" "1 < length (heightMap scenario_A)"
    by (simp_all add: scenario_A_def item_b5_def)
  show ?thesis
    unfolding onRefreshItems_single [OF a]
    by (simp add: scenario_A_def scenario_B_def item_b5_def shifted_def)
qed

lemma scenario_C_remove: "hm (onRemoveItems [''a'', ''b''] scenario_A) = scenario_C"
proof -
  have a: "map (indexes scenario_A) [''a'', ''b''] = map Some [0..<0 + length [''a'', ''b'']]"
    "[] \<notin> set [''a'', ''b'']" "0 + length [''a'', ''b''] \<le> length (heightMap scenario_A)"
    "sum_list (map height (take (length [''a'', ''b'']) (drop 0 (heightMap scenario_A)))) \<noteq> 0"
    by (simp_all add: scenario_A_def upt_rec)
  show ?thesis
    unfolding onRemoveItems_eq [OF a]
    by (simp add: scenario_A_def scenario_C_def shifted_def row_id_def fun_eq_iff restrict_map_def)
qed

lemma reachable_invariants: "reachable h \<Longrightarrow> contiguous h \<and> index_valid h"
proof (induction rule: reachable.induct)
  case initial
  show ?case by (simp add: contiguous_def index_valid_def new_HeightMap_def)
next
  case (insert h afterItemId its)
  then show ?case using insert_preserves by blast
next
  case (remove h xs)
  then show ?case using remove_preserves by blast
next
  case (refresh h its)
  then show ?case using refresh_preserves by blast
qed

section \<open>Double arithmetic on whole numbers\<close>

text \<open>
  Rounding at work: within \<open>2 ^ 53\<close> nothing is rounded; beyond, a whole number goes to
  the nearest multiple of 2 (up to \<open>2 ^ 54\<close>) or of 4 (up to \<open>2 ^ 55\<close>), half-way to the
  multiple with the even significand.
\<close>

lemma fl_exact [simp]: "exact n \<Longrightarrow> fl n = n"
  by (simp add: fl_def)

lemma exact_0 [simp]: "exact 0"
  by (simp add: exact_def)

lemma ulp_stop: "a < 2 ^ 53 * u \<Longrightarrow> ulp_of a u = u"
  by (subst ulp_of.simps) simp

lemma ulp_step: "u \<noteq> 0 \<Longrightarrow> \<not> a < 2 ^ 53 * u \<Longrightarrow> ulp_of a u = ulp_of a (2 * u)"
  by (subst ulp_of.simps) simp

lemma ulp_sample_2: "ulp_of 9007199254740995 (Suc 0) = 2"
  by (simp add: ulp_step ulp_stop)

lemma ulp_sample_4: "ulp_of 18014398509481989 (Suc 0) = 4"
  by (simp add: ulp_step ulp_stop)

lemma ulp_samples: "ulp_of 18014398509481990 (Suc 0) = 4" "ulp_of 18014398509481987 (Suc 0) = 4" "ulp_of 9007199254740993 (Suc 0) = 2"
   "ulp_of 9007199254740994 (Suc 0) = 2"
  by (simp_all add: ulp_step ulp_stop)

lemma fl_samples:
  "fl 9007199254740995 = 9007199254740996" "fl (- 9007199254740993) = - 9007199254740992"
  "fl 9007199254740994 = 9007199254740994" "fl 18014398509481989 = 18014398509481988"
  "fl 18014398509481990 = 18014398509481992" "fl 18014398509481987 = 18014398509481988"
  by (simp_all add: fl_def exact_def ulp_sample_2 ulp_sample_4 ulp_samples Let_def)

lemma ulp_tie: "ulp_of 9007199254740993 (Suc 0) = 2"
  by (subst ulp_of.simps, simp, subst ulp_of.simps, simp)

lemma fl_tie: "fl 9007199254740993 = 9007199254740992"
  by (simp add: fl_def exact_def ulp_tie Let_def)

text \<open>
  Where every sum is a whole number of magnitude up to \<open>2 ^ 53\<close>, the rounding loops do
  what the exact loops do.
\<close>

lemma fold_insert_shift_fl_eq:
  "distinct ks \<Longrightarrow> \<forall>k\<in>set ks. exact (top_px (rows ! k) + d) \<Longrightarrow>
   fold (insert_shift_fl d) ks (rows, m) = fold (insert_shift d) ks (rows, m)"
proof (induction ks arbitrary: rows m)
  case Nil
  then show ?case by simp
next
  case (Cons k ks)
  let ?v = "(rows ! k)\<lparr>top_px := top_px (rows ! k) + d\<rparr>"
  have s: "insert_shift_fl d k (rows, m) = insert_shift d k (rows, m)"
    using Cons.prems(2) by (simp add: insert_shift_fl_def insert_shift_def)
  have "\<forall>k'\<in>set ks. exact (top_px (rows[k := ?v] ! k') + d)"
  proof
    fix k' assume k': "k' \<in> set ks"
    then have "k \<noteq> k'" using Cons.prems(1) by auto
    then have "rows[k := ?v] ! k' = rows ! k'" by (rule nth_list_update_neq)
    then show "exact (top_px (rows[k := ?v] ! k') + d)" using Cons.prems(2) k' by simp
  qed
  then show ?case
    using Cons.IH [of "rows[k := ?v]"] Cons.prems(1) s
    by (simp add: insert_shift_def Let_def)
qed

lemma fold_remove_shift_fl_eq:
  "distinct ks \<Longrightarrow> \<forall>k\<in>set ks. exact (top_px (rows ! k) + d) \<Longrightarrow>
   fold (remove_shift_fl d) ks (rows, m, ev) = fold (remove_shift d) ks (rows, m, ev)"
proof (induction ks arbitrary: rows m ev)
  case Nil
  then show ?case by simp
next
  case (Cons k ks)
  let ?v = "(rows ! k)\<lparr>top_px := top_px (rows ! k) + d\<rparr>"
  have s: "remove_shift_fl d k (rows, m, ev) = remove_shift d k (rows, m, ev)"
    using Cons.prems(2) by (simp add: remove_shift_fl_def remove_shift_def)
  have "\<forall>k'\<in>set ks. exact (top_px (rows[k := ?v] ! k') + d)"
  proof
    fix k' assume k': "k' \<in> set ks"
    then have "k \<noteq> k'" using Cons.prems(1) by auto
    then have "rows[k := ?v] ! k' = rows ! k'" by (rule nth_list_update_neq)
    then show "exact (top_px (rows[k := ?v] ! k') + d)" using Cons.prems(2) k' by simp
  qed
  then show ?case
    using Cons.IH [of "rows[k := ?v]"] Cons.prems(1) s
    by (simp add: remove_shift_def Let_def)
qed

lemma fold_refresh_shift_fl_eq:
  "distinct ks \<Longrightarrow> \<forall>k\<in>set ks. exact (top_px (rows ! k) + d) \<Longrightarrow>
   fold (refresh_shift_fl d) ks (rows, ev) = fold (refresh_shift d) ks (rows, ev)"
proof (induction ks arbitrary: rows ev)
  case Nil
  then show ?case by simp
next
  case (Cons k ks)
  let ?v = "(rows ! k)\<lparr>top_px := top_px (rows ! k) + d\<rparr>"
  have s: "refresh_shift_fl d k (rows, ev) = refresh_shift d k (rows, ev)"
    using Cons.prems(2) by (simp add: refresh_shift_fl_def refresh_shift_def)
  have "\<forall>k'\<in>set ks. exact (top_px (rows[k := ?v] ! k') + d)"
  proof
    fix k' assume k': "k' \<in> set ks"
    then have "k \<noteq> k'" using Cons.prems(1) by auto
    then have "rows[k := ?v] ! k' = rows ! k'" by (rule nth_list_update_neq)
    then show "exact (top_px (rows[k := ?v] ! k') + d)" using Cons.prems(2) k' by simp
  qed
  then show ?case
    using Cons.IH [of "rows[k := ?v]"] Cons.prems(1) s
    by (simp add: refresh_shift_def Let_def)
qed

lemma refresh_catchup_fl_eq:
  assumes "\<forall>k. lower j \<le> k \<and> k < length rows \<longrightarrow> exact (top_px (rows ! k) + c)"
  shows "refresh_catchup_fl c j i (rows, ev) = refresh_catchup c j i (rows, ev)"
proof (cases j)
  case None
  then show ?thesis by (simp add: refresh_catchup_fl_def refresh_catchup_def)
next
  case (Some j0)
  have "\<forall>k\<in>set [j0..<min i (length rows)]. exact (top_px (rows ! k) + c)"
    using assms Some by (simp add: lower_def)
  then have "fold (refresh_shift_fl c) [j0..<min i (length rows)] (rows, ev) =
             fold (refresh_shift c) [j0..<min i (length rows)] (rows, ev)"
    by (intro fold_refresh_shift_fl_eq) simp_all
  then show ?thesis using Some by (simp add: refresh_catchup_fl_def refresh_catchup_def)
qed

lemma onRefreshItems_fl_single:
  assumes "indexes h (id_str it) = Some i" and "i < length (heightMap h)"
    and "exact (top_px (heightMap h ! i))"
    and "exact (getHeight it - height (heightMap h ! i))"
    and "\<forall>k. i < k \<and> k < length (heightMap h) \<longrightarrow>
           exact (top_px (heightMap h ! k) + (getHeight it - height (heightMap h ! i)))"
  shows "onRefreshItems_fl [it] h = onRefreshItems [it] h"
proof -
  let ?rows = "heightMap h"
  let ?d = "getHeight it - height (?rows ! i)"
  let ?v = "(?rows ! i)\<lparr>top_px := top_px (?rows ! i) + 0, height := getHeight it\<rparr>"
  have sc: "refresh_scan_fl [it] (indexes h) ?rows None 0 [] =
            Inr (?rows[i := ?v], Some (Suc i), ?d, [OnRefreshItem ?v True])"
    using assms(1-4) by (simp add: refresh_catchup_fl_def Let_def)
  have sc': "refresh_scan [it] (indexes h) ?rows None 0 [] =
            Inr (?rows[i := ?v], Some (Suc i), ?d, [OnRefreshItem ?v True])"
    using assms(1,2) by (simp add: refresh_catchup_def Let_def)
  have "\<forall>k. lower (Some (Suc i)) \<le> k \<and> k < length (?rows[i := ?v]) \<longrightarrow>
          exact (top_px (?rows[i := ?v] ! k) + ?d)"
    using assms(5) by (auto simp: lower_def)
  then have cu: "refresh_catchup_fl ?d (Some (Suc i)) n (?rows[i := ?v], e) =
                 refresh_catchup ?d (Some (Suc i)) n (?rows[i := ?v], e)" for n e
    by (rule refresh_catchup_fl_eq)
  show ?thesis
    unfolding onRefreshItems_fl_def onRefreshItems_def sc sc'
    by (simp only: sum.case prod.case cu)
qed

lemma big_state_insert:
  "hm (onInsertItems_fl [item_a1, item_b_big, item_c1] None new_HeightMap) = big_state"
  by (simp add: onInsertItems_fl_def insert_anchor_fl_def createViewItem_def splice_def
      new_HeightMap_def big_state_def item_a1_def item_b_big_def item_c1_def exact_def
      Let_def numeral_2_eq_2)

lemma big_state_refresh:
  "heightMap (hm (onRefreshItems_fl [item_a2] big_state)) =
     [\<lparr>model = item_a1, top_px = 0, height = 2\<rparr>,
      \<lparr>model = item_b_big, top_px = 2, height = 2 ^ 53 - 1\<rparr>,
      \<lparr>model = item_c1, top_px = 2 ^ 53, height = 1\<rparr>]"
  by (simp add: onRefreshItems_fl_def refresh_catchup_fl_def refresh_shift_fl_def
      big_state_def item_a2_def item_a1_def exact_def fl_tie Let_def upt_rec)

lemma big_state_contiguous: "contiguous big_state \<and> extents_nonneg big_state"
  by (simp add: contiguous_def extents_nonneg_def big_state_def)

text \<open>
  C7, within the range of exact whole numbers. Refreshing a single item whose index entry
  names the row at slot \<open>i\<close>, when the row's extent is \<open>h0\<close> and the item's height is now
  \<open>h0 + d\<close>, the change \<open>d\<close>, the offset of the row and the offset of every later row
  moved by \<open>d\<close> being whole numbers of magnitude up to \<open>2 ^ 53\<close>: the call returns
  normally, every row before slot \<open>i\<close> is as it was, the row at slot \<open>i\<close> keeps its offset
  and has the extent \<open>h0 + d\<close>, every row after slot \<open>i\<close> has its offset moved by \<open>d\<close> and
  is otherwise as it was, and the index is as it was.
\<close>

theorem refresh_single_minimal_fl:
  assumes "indexes h (id_str it) = Some i" and "i < length (heightMap h)"
    and "height (heightMap h ! i) = h0" and "getHeight it = h0 + d"
    and "exact d" and "exact (top_px (heightMap h ! i))"
    and "\<forall>k. i < k \<and> k < length (heightMap h) \<longrightarrow> exact (top_px (heightMap h ! k) + d)"
  shows "returned (onRefreshItems_fl [it] h) = Inr () \<and>
         length (heightMap (hm (onRefreshItems_fl [it] h))) = length (heightMap h) \<and>
         (\<forall>k<i. heightMap (hm (onRefreshItems_fl [it] h)) ! k = heightMap h ! k) \<and>
         heightMap (hm (onRefreshItems_fl [it] h)) ! i = (heightMap h ! i)\<lparr>height := h0 + d\<rparr> \<and>
         (\<forall>k. i < k \<and> k < length (heightMap h) \<longrightarrow>
            heightMap (hm (onRefreshItems_fl [it] h)) ! k =
              (heightMap h ! k)\<lparr>top_px := top_px (heightMap h ! k) + d\<rparr>) \<and>
         indexes (hm (onRefreshItems_fl [it] h)) = indexes h"
proof -
  have d: "getHeight it - height (heightMap h ! i) = d" using assms(3,4) by simp
  have e1: "exact (getHeight it - height (heightMap h ! i))"
    unfolding d by (rule assms(5))
  have e2: "\<forall>k. i < k \<and> k < length (heightMap h) \<longrightarrow>
              exact (top_px (heightMap h ! k) + (getHeight it - height (heightMap h ! i)))"
    unfolding d by (rule assms(7))
  have "onRefreshItems_fl [it] h = onRefreshItems [it] h"
    by (rule onRefreshItems_fl_single [OF assms(1,2,6) e1 e2])
  then show ?thesis using refresh_single_exact [OF assms(1-4)] by simp
qed

theorem refresh_single_minimal_fl_witness:
  "indexes scenario_A (id_str item_b5) = Some 1 \<and> 1 < length (heightMap scenario_A) \<and>
   height (heightMap scenario_A ! 1) = 20 \<and> getHeight item_b5 = 20 + (- 15) \<and>
   exact (- 15) \<and> exact (top_px (heightMap scenario_A ! 1)) \<and>
   exact (top_px (heightMap scenario_A ! 2) + (- 15)) \<and>
   heightMap (hm (onRefreshItems_fl [item_b5] scenario_A)) ! 0 = heightMap scenario_A ! 0 \<and>
   heightMap (hm (onRefreshItems_fl [item_b5] scenario_A)) ! 1 =
     \<lparr>model = \<lparr>id_str = ''b'', getHeight = 20\<rparr>, top_px = 10, height = 5\<rparr> \<and>
   heightMap (hm (onRefreshItems_fl [item_b5] scenario_A)) ! 2 =
     \<lparr>model = \<lparr>id_str = ''c'', getHeight = 30\<rparr>, top_px = 15, height = 30\<rparr>"
proof -
  have a: "indexes scenario_A (id_str item_b5) = Some 1" "1 < length (heightMap scenario_A)"
    "height (heightMap scenario_A ! 1) = 20" "getHeight item_b5 = 20 + (- 15)"
    "exact (- 15)" "exact (top_px (heightMap scenario_A ! 1))"
    by (simp_all add: scenario_A_def item_b5_def exact_def)
  have b: "heightMap scenario_A ! 1 = \<lparr>model = \<lparr>id_str = ''b'', getHeight = 20\<rparr>, top_px = 10, height = 20\<rparr>"
    "heightMap scenario_A ! 2 = \<lparr>model = \<lparr>id_str = ''c'', getHeight = 30\<rparr>, top_px = 30, height = 30\<rparr>"
    "length (heightMap scenario_A) = 3"
    by (simp_all add: scenario_A_def)
  have e: "exact (top_px (heightMap scenario_A ! 2) + (- 15))" by (simp add: b exact_def)
  have a7: "\<forall>k. 1 < k \<and> k < length (heightMap scenario_A) \<longrightarrow>
              exact (top_px (heightMap scenario_A ! k) + (- 15))"
  proof (intro allI impI)
    fix k :: nat assume "1 < k \<and> k < length (heightMap scenario_A)"
    then have "k = 2" using b(3) by simp
    then show "exact (top_px (heightMap scenario_A ! k) + (- 15))" using e by simp
  qed
  note t = refresh_single_minimal_fl [OF a a7]
  have "heightMap (hm (onRefreshItems_fl [item_b5] scenario_A)) ! 0 = heightMap scenario_A ! 0"
    using t by simp
  moreover have "heightMap (hm (onRefreshItems_fl [item_b5] scenario_A)) ! 2 =
      (heightMap scenario_A ! 2)\<lparr>top_px := top_px (heightMap scenario_A ! 2) + (- 15)\<rparr>"
    using t b(3) by simp
  ultimately show ?thesis using t a b e by simp
qed

text \<open>
  C7 as stated fails beyond that range: a later row does not move by \<open>d\<close>. Three rows
  of heights 1, \<open>2 ^ 53 - 1\<close> and 1, inserted into the empty map, are contiguous, the last
  at offset \<open>2 ^ 53\<close>. Refreshing the first from height 1 to height 2 moves the second by
  1, and the third stays at \<open>2 ^ 53\<close>: the double nearest to \<open>2 ^ 53 + 1\<close> is
  \<open>2 ^ 53\<close>.
\<close>

theorem refresh_single_minimal_fl_counterexample:
  "hm (onInsertItems_fl [item_a1, item_b_big, item_c1] None new_HeightMap) = big_state \<and>
   contiguous big_state \<and> extents_nonneg big_state \<and>
   indexes big_state (id_str item_a2) = Some 0 \<and>
   height (heightMap big_state ! 0) = 1 \<and> getHeight item_a2 = 1 + 1 \<and>
   top_px (heightMap big_state ! 2) = 2 ^ 53 \<and>
   heightMap (hm (onRefreshItems_fl [item_a2] big_state)) =
     [\<lparr>model = item_a1, top_px = 0, height = 2\<rparr>,
      \<lparr>model = item_b_big, top_px = 2, height = 2 ^ 53 - 1\<rparr>,
      \<lparr>model = item_c1, top_px = 2 ^ 53, height = 1\<rparr>] \<and>
   top_px (heightMap (hm (onRefreshItems_fl [item_a2] big_state)) ! 2) \<noteq>
     top_px (heightMap big_state ! 2) + 1"
proof -
  have a: "indexes big_state (id_str item_a2) = Some 0" "height (heightMap big_state ! 0) = 1"
    "getHeight item_a2 = 1 + 1" "top_px (heightMap big_state ! 2) = 2 ^ 53"
    by (simp_all add: big_state_def item_a2_def)
  have n: "top_px (heightMap (hm (onRefreshItems_fl [item_a2] big_state)) ! 2) \<noteq>
      top_px (heightMap big_state ! 2) + 1"
    unfolding big_state_refresh a(4) by simp
  show ?thesis
    using a n by (simp only: big_state_insert big_state_refresh big_state_contiguous simp_thms)
qed

text \<open>
  The rounding mutations and the exact ones agree on safe states, within the bounds of
  \<open>reachable_fl\<close>, and they keep a state safe; so every state of \<open>reachable_fl\<close> is a
  state of \<open>reachable\<close>, and safe.
\<close>

lemma sum_height_nonneg: "list_all (\<lambda>v. 0 \<le> height v) rows \<Longrightarrow> 0 \<le> sum_list (map height rows)"
  by (auto intro!: sum_list_nonneg simp: list_all_iff)

lemma total_height_nonneg: "heights_whole its \<Longrightarrow> 0 \<le> total_height its"
  by (auto intro!: sum_list_nonneg simp: heights_whole_def total_height_def list_all_iff)

lemma safe_row:
  assumes "safe h" and "k < length (heightMap h)"
  shows "0 \<le> top_px (heightMap h ! k)" and "0 \<le> height (heightMap h ! k)"
    and "top_px (heightMap h ! k) + height (heightMap h ! k) \<le> getTotalHeight h"
    and "top_px (heightMap h ! k) \<le> getTotalHeight h"
proof -
  have c: "contiguous_from 0 (heightMap h)" and n: "list_all (\<lambda>v. 0 \<le> height v) (heightMap h)"
    using assms(1) by (simp_all add: safe_def contiguous_def extents_nonneg_def)
  have t: "getTotalHeight h = sum_list (map height (heightMap h))"
    using assms(1) by (simp add: safe_def getTotalHeight_sum)
  show 1: "0 \<le> top_px (heightMap h ! k)"
    and 3: "top_px (heightMap h ! k) + height (heightMap h ! k) \<le> getTotalHeight h"
    using contiguous_from_bounds [OF c n assms(2)] t by simp_all
  show 2: "0 \<le> height (heightMap h ! k)" using n assms(2) by (simp add: list_all_length)
  show "top_px (heightMap h ! k) \<le> getTotalHeight h" using 2 3 by simp
qed

lemma insert_anchor_fl_eq: "safe h \<Longrightarrow> insert_anchor_fl h a = insert_anchor h a"
proof -
  assume s: "safe h"
  have "exact (top_px (heightMap h ! k) + height (heightMap h ! k))" if "k < length (heightMap h)" for k
    using safe_row [OF s that] s by (simp add: exact_def safe_def)
  then show ?thesis
    by (simp add: insert_anchor_fl_def insert_anchor_def split: option.splits)
qed

lemma insert_scan_fl_eq:
  "0 \<le> totalSize \<Longrightarrow> 0 \<le> sizeDiff \<Longrightarrow> heights_whole its \<Longrightarrow>
   totalSize + sizeDiff + total_height its \<le> 2 ^ 53 \<Longrightarrow>
   insert_scan_fl its totalSize i idx acc sizeDiff ev =
   insert_scan its totalSize i idx acc sizeDiff ev"
proof (induction its arbitrary: i idx acc sizeDiff ev)
  case Nil
  then show ?case by simp
next
  case (Cons it its)
  have h: "0 \<le> getHeight it" "heights_whole its"
    using Cons.prems(3) by (simp_all add: heights_whole_def)
  have t: "total_height (it # its) = getHeight it + total_height its"
    by (simp add: total_height_def)
  have n: "0 \<le> total_height its" using h(2) by (rule total_height_nonneg)
  have e1: "exact (totalSize + sizeDiff)" using Cons.prems h n t by (simp add: exact_def)
  have e2: "exact (sizeDiff + getHeight it)" using Cons.prems h n t by (simp add: exact_def)
  have "insert_scan_fl its totalSize (Suc i) (idx(id_str it \<mapsto> i)) acc' (sizeDiff + getHeight it) ev' =
        insert_scan its totalSize (Suc i) (idx(id_str it \<mapsto> i)) acc' (sizeDiff + getHeight it) ev'"
    for acc' ev'
    using Cons.prems h t by (intro Cons.IH) simp_all
  then show ?case using e1 e2 by (simp add: createViewItem_def Let_def)
qed

lemma onInsertItems_fl_eq:
  assumes s: "safe h" and w: "heights_whole its"
    and b: "getTotalHeight h + total_height its \<le> 2 ^ 53"
  shows "onInsertItems_fl its a h = onInsertItems its a h"
proof (cases "insert_anchor h a")
  case None
  then show ?thesis
    by (simp add: onInsertItems_fl_def onInsertItems_def insert_anchor_fl_eq [OF s])
next
  case (Some p)
  obtain i0 base where p: "p = (i0, base)" by (cases p)
  let ?rows = "heightMap h"
  have an: "insert_anchor h a = Some (i0, base)" using Some p by simp
  have c: "contiguous h" and nn: "list_all (\<lambda>v. 0 \<le> height v) ?rows"
    using s by (simp_all add: safe_def extents_nonneg_def)
  have i0: "i0 \<le> length ?rows" and base: "base = sum_list (map height (take i0 ?rows))"
    using insert_anchor_base [OF c an] by simp_all
  have t: "getTotalHeight h = sum_list (map height ?rows)" using c by (rule getTotalHeight_sum)
  have "sum_list (map height ?rows) =
        sum_list (map height (take i0 ?rows)) + sum_list (map height (drop i0 ?rows))"
    by (metis append_take_drop_id map_append sum_list_append)
  moreover have "0 \<le> sum_list (map height (drop i0 ?rows))" "0 \<le> sum_list (map height (take i0 ?rows))"
    using nn by (auto intro!: sum_list_nonneg simp: list_all_iff dest!: in_set_dropD in_set_takeD)
  ultimately have b0: "0 \<le> base" "base \<le> getTotalHeight h" using base t by simp_all
  have n: "0 \<le> total_height its" using w by (rule total_height_nonneg)
  have sc: "insert_scan_fl its base i0 (indexes h) [] 0 [] = insert_scan its base i0 (indexes h) [] 0 []"
    using b0 b w by (intro insert_scan_fl_eq) simp_all
  let ?rows1 = "splice i0 0 (new_rows base its) ?rows"
  have ex: "\<forall>k\<in>set [i0 + length its..<length ?rows1]. exact (top_px (?rows1 ! k) + total_height its)"
  proof
    fix k assume "k \<in> set [i0 + length its..<length ?rows1]"
    then have k: "i0 + length its \<le> k" "k < length ?rows + length its"
      using i0 by (simp_all add: splice_def)
    then have "?rows1 ! k = ?rows ! (k - length its)"
      using i0 by (simp add: splice_def nth_append)
    moreover have "k - length its < length ?rows" using k by simp
    ultimately show "exact (top_px (?rows1 ! k) + total_height its)"
      using safe_row [OF s, of "k - length its"] n b by (simp add: exact_def)
  qed
  have f: "fold (insert_shift_fl (total_height its)) [i0 + length its..<length ?rows1] (?rows1, m) =
           fold (insert_shift (total_height its)) [i0 + length its..<length ?rows1] (?rows1, m)" for m
    using ex by (intro fold_insert_shift_fl_eq) simp_all
  show ?thesis
    by (simp add: onInsertItems_fl_def onInsertItems_def insert_anchor_fl_eq [OF s] an sc
        insert_scan_eq f)
qed

lemma remove_scan_fl_prefix:
  assumes "map idx xs = map Some ks" and "distinct xs" and "[] \<notin> set xs"
    and "\<forall>k\<in>set ks. k < length rows \<and> 0 \<le> height (rows ! k)"
    and "sizeDiff \<le> 0"
    and "- (2 ^ 53) \<le> sizeDiff - sum_list (map (\<lambda>k. height (rows ! k)) ks)"
  shows "remove_scan_fl (xs @ rest) rows idx sizeDiff run ev =
         remove_scan_fl rest rows (idx |` (- set xs))
           (sizeDiff - sum_list (map (\<lambda>k. height (rows ! k)) ks))
           (run_after run ks) (ev @ map (\<lambda>k. OnRemoveItem (rows ! k)) ks)"
  using assms
proof (induction xs arbitrary: ks idx sizeDiff run ev)
  case Nil
  then show ?case by simp
next
  case (Cons x xs)
  then obtain k ks' where ks: "ks = k # ks'" by (cases ks) auto
  have x: "idx x = Some k" "k < length rows" "x \<noteq> []" "0 \<le> height (rows ! k)"
    using Cons.prems ks by auto
  have e: "map (idx(x := None)) xs = map idx xs" using Cons.prems(2) by (intro map_cong) auto
  have "map idx xs = map Some ks'" using Cons.prems(1) ks by simp
  then have m: "map (idx(x := None)) xs = map Some ks'" by (simp only: e)
  have nn: "0 \<le> sum_list (map (\<lambda>k. height (rows ! k)) ks')"
    using Cons.prems(4) ks by (auto intro!: sum_list_nonneg)
  have ex: "exact (sizeDiff - height (rows ! k))"
    using Cons.prems(5,6) x(4) nn ks by (simp add: exact_def)
  have ih: "remove_scan_fl (xs @ rest) rows (idx(x := None)) (sizeDiff - height (rows ! k)) r e =
         remove_scan_fl rest rows ((idx(x := None)) |` (- set xs))
           (sizeDiff - height (rows ! k) - sum_list (map (\<lambda>k. height (rows ! k)) ks'))
           (run_after r ks') (e @ map (\<lambda>k. OnRemoveItem (rows ! k)) ks')" for r e
    by (rule Cons.IH [OF m]) (use Cons.prems ks x(4) in auto)
  have "remove_scan_fl ((x # xs) @ rest) rows idx sizeDiff run ev =
        remove_scan_fl (xs @ rest) rows (idx(x := None)) (sizeDiff - height (rows ! k))
          (Some (case run of None \<Rightarrow> k | Some (startIndex, _) \<Rightarrow> startIndex, k))
          (ev @ [OnRemoveItem (rows ! k)])"
    using x ex by (simp add: Let_def)
  then show ?case
    unfolding ih restrict_map_delete ks by (simp add: algebra_simps)
qed

lemma remove_scan_tail:
  assumes "rest = [] \<or> hd rest = []"
  shows "remove_scan_fl rest rows idx sizeDiff run ev = (True, idx, sizeDiff, run, ev, tl rest)"
    and "remove_scan rest rows idx sizeDiff run ev = (True, idx, sizeDiff, run, ev, tl rest)"
  using assms by (cases rest; simp)+

lemma onRemoveItems_fl_eq:
  assumes s: "safe h" and v: "index_valid h" and r: "contiguous_run h xs"
  shows "onRemoveItems_fl xs h = onRemoveItems xs h"
proof -
  let ?rows = "heightMap h"
  let ?eff = "takeWhile (\<lambda>x. x \<noteq> []) xs" and ?rest = "dropWhile (\<lambda>x. x \<noteq> []) xs"
  let ?n = "length ?eff"
  obtain s0 where m: "map (indexes h) ?eff = map Some [s0..<s0 + ?n]"
    and len: "s0 + ?n \<le> length ?rows"
    using contiguous_run_effective [OF r v] by blast
  have ne: "[] \<notin> set ?eff" by (auto dest: set_takeWhileD)
  have d: "distinct ?eff" using distinct_map [of "indexes h" ?eff] m by (simp add: distinct_map)
  have xs: "xs = ?eff @ ?rest" by simp
  have tail: "?rest = [] \<or> hd ?rest = []" using hd_dropWhile [of "\<lambda>x. x \<noteq> []" xs] by auto
  define P where "P = take s0 ?rows"
  define M where "M = take ?n (drop s0 ?rows)"
  define T where "T = drop (s0 + ?n) ?rows"
  have rows: "?rows = P @ M @ T"
    unfolding P_def M_def T_def by (metis append_take_drop_id drop_drop add.commute)
  have nn: "list_all (\<lambda>v. 0 \<le> height v) ?rows" and c: "contiguous h"
    and tb: "getTotalHeight h \<le> 2 ^ 53"
    using s by (simp_all add: safe_def extents_nonneg_def)
  have t: "getTotalHeight h = sum_list (map height ?rows)" using c by (rule getTotalHeight_sum)
  have nnP: "0 \<le> sum_list (map height P)" and nnM: "0 \<le> sum_list (map height M)"
    and nnT: "0 \<le> sum_list (map height T)"
    using nn rows by (auto intro!: sum_list_nonneg simp: list_all_iff)
  have tM: "sum_list (map height M) \<le> getTotalHeight h"
    using nnP nnT rows t by simp
  have nth: "map (\<lambda>k. height (?rows ! k)) [s0..<s0 + ?n] = map height M"
    unfolding M_def using len by (intro nth_equalityI) (auto simp: nth_map_upt)
  have b: "\<forall>k\<in>set [s0..<s0 + ?n]. k < length ?rows \<and> 0 \<le> height (?rows ! k)"
    using len nn by (auto simp: list_all_length)
  have b': "\<forall>k\<in>set [s0..<s0 + ?n]. k < length ?rows" using len by auto
  define sd where "sd = 0 - sum_list (map (\<lambda>k. height (?rows ! k)) [s0..<s0 + ?n])"
  have sd: "- getTotalHeight h \<le> sd" "sd \<le> 0" using nnM tM by (simp_all add: sd_def nth)
  define I where "I = indexes h |` (- set ?eff)"
  define R where "R = run_after None [s0..<s0 + ?n]"
  define E where "E = map (\<lambda>k. OnRemoveItem (?rows ! k)) [s0..<s0 + ?n]"
  have "remove_scan_fl (?eff @ ?rest) ?rows (indexes h) 0 None [] =
        remove_scan_fl ?rest ?rows I sd R E"
    unfolding I_def sd_def R_def E_def
    using remove_scan_fl_prefix [OF m d ne b, of 0 ?rest None "[]"] tM tb nth by simp
  then have A: "remove_scan_fl xs ?rows (indexes h) 0 None [] = (True, I, sd, R, E, tl ?rest)"
    using remove_scan_tail(1) [OF tail] by simp
  have "remove_scan (?eff @ ?rest) ?rows (indexes h) 0 None [] =
        remove_scan ?rest ?rows I sd R E"
    unfolding I_def sd_def R_def E_def
    using remove_scan_prefix [OF m d ne b', of ?rest 0 None "[]"] by simp
  then have B: "remove_scan xs ?rows (indexes h) 0 None [] = (True, I, sd, R, E, tl ?rest)"
    using remove_scan_tail(2) [OF tail] by simp
  have ex: "exact (top_px w + sd)" if w: "w \<in> set ?rows" for w
  proof -
    obtain k where "k < length ?rows" "?rows ! k = w" using w by (auto simp: in_set_conv_nth)
    then have "0 \<le> top_px w" "top_px w \<le> getTotalHeight h"
      using safe_row(1,4) [OF s, of k] by auto
    then show ?thesis using sd tb by (simp add: exact_def)
  qed
  have f: "fold (remove_shift_fl sd) [a..<length (splice a n [] ?rows)] (splice a n [] ?rows, I, E) =
           fold (remove_shift sd) [a..<length (splice a n [] ?rows)] (splice a n [] ?rows, I, E)"
    for a n
  proof (rule fold_remove_shift_fl_eq)
    show "distinct [a..<length (splice a n [] ?rows)]" by simp
    show "\<forall>k\<in>set [a..<length (splice a n [] ?rows)]. exact (top_px (splice a n [] ?rows ! k) + sd)"
    proof
      fix k assume "k \<in> set [a..<length (splice a n [] ?rows)]"
      then have "splice a n [] ?rows ! k \<in> set (splice a n [] ?rows)" by simp
      then have "splice a n [] ?rows ! k \<in> set ?rows"
        by (auto simp: splice_def dest: in_set_takeD in_set_dropD)
      then show "exact (top_px (splice a n [] ?rows ! k) + sd)" by (rule ex)
    qed
  qed
  show ?thesis
    unfolding onRemoveItems_fl_def onRemoveItems_def A B
    by (simp add: f Let_def split: option.splits)
qed

lemma nonneg_map:
  "list_all (\<lambda>v. 0 \<le> height v) rows \<longleftrightarrow> list_all (\<lambda>x. 0 \<le> x) (map height rows)"
  by (simp add: list_all_iff)

lemma catchup_heights [simp]:
  "map height (fst (refresh_catchup c j i (rows, ev))) = map height rows"
proof -
  have "map height (fst (fold (refresh_shift c) ks (rows, ev))) = map height rows" for ks
  proof (induction ks arbitrary: rows ev)
    case Nil
    show ?case by simp
  next
    case (Cons k ks)
    have "map height (rows[k := (rows ! k)\<lparr>top_px := top_px (rows ! k) + c\<rparr>]) = map height rows"
    proof (intro nth_equalityI)
      fix i assume "i < length (map height (rows[k := (rows ! k)\<lparr>top_px := top_px (rows ! k) + c\<rparr>]))"
      then have i: "i < length rows" by simp
      show "map height (rows[k := (rows ! k)\<lparr>top_px := top_px (rows ! k) + c\<rparr>]) ! i =
            map height rows ! i"
        using i by (cases "i = k") simp_all
    qed simp
    then show ?case using Cons.IH by (simp add: refresh_shift_def Let_def)
  qed
  then show ?thesis by (simp add: refresh_catchup_def split: option.splits)
qed

lemma refresh_pending_exact:
  assumes inv: "refresh_inv rows j c" and nn: "list_all (\<lambda>v. 0 \<le> height v) rows"
    and tot: "sum_list (map height rows) \<le> 2 ^ 53"
    and k: "lower j \<le> k" "k < length rows"
  shows "exact (top_px (rows ! k) + c)"
proof -
  define P where "P = take (lower j) rows"
  define S where "S = drop (lower j) rows"
  have rows: "rows = P @ S" by (simp add: P_def S_def)
  have c1: "contiguous_from (sum_list (map height P) - c) S"
    using inv by (simp add: refresh_inv_def P_def S_def)
  have nnS: "list_all (\<lambda>v. 0 \<le> height v) S" and nnP: "0 \<le> sum_list (map height P)"
    using nn rows by (auto intro!: sum_list_nonneg simp: list_all_iff)
  have kk: "k - lower j < length S" "S ! (k - lower j) = rows ! k"
    using k by (simp_all add: S_def)
  have sum: "sum_list (map height rows) = sum_list (map height P) + sum_list (map height S)"
    using rows by simp
  have hk: "0 \<le> height (rows ! k)" using nn k by (simp add: list_all_length)
  from contiguous_from_bounds [OF c1 nnS kk(1)] show ?thesis
    unfolding kk(2) using nnP sum hk tot by (simp add: exact_def)
qed

lemma refresh_step_safe:
  assumes inv: "refresh_inv rows j c" and lo: "lower j \<le> i" and i: "i < length rows"
    and nn: "list_all (\<lambda>v. 0 \<le> height v) rows"
    and cA: "c \<le> sum_list (map height (take (lower j) rows))"
    and old: "sum_list (map height rows) - c \<le> 2 ^ 53"
    and nh: "0 \<le> nh" and tot: "sum_list (map height rows) + nh \<le> 2 ^ 53"
    and r1: "rows1 = fst (refresh_catchup c j i (rows, ev))"
    and v': "v' = (rows1 ! i)\<lparr>top_px := top_px (rows1 ! i) + c, height := nh\<rparr>"
  shows "rows1 ! i = rows ! i"
    and "exact (nh - height (rows ! i))"
    and "exact (c + (nh - height (rows ! i)))"
    and "list_all (\<lambda>v. 0 \<le> height v) (rows1[i := v'])"
    and "c + (nh - height (rows ! i)) \<le> sum_list (map height (take (Suc i) (rows1[i := v'])))"
    and "sum_list (map height (rows1[i := v'])) - (c + (nh - height (rows ! i))) \<le> 2 ^ 53"
    and "sum_list (map height (rows1[i := v'])) \<le> sum_list (map height rows) + nh"
proof -
  define P where "P = take (lower j) rows"
  define S where "S = take (i - lower j) (drop (lower j) rows)"
  define R where "R = drop (Suc i) rows"
  define v where "v = rows ! i"
  have dr: "drop i rows = v # R" using i by (simp add: Cons_nth_drop_Suc v_def R_def)
  have rows: "rows = P @ S @ v # R"
    using split3 [OF lo, of rows] i dr by (simp add: P_def S_def)
  have l: "length P + length S = i" "length P = lower j" using lo i by (simp_all add: P_def S_def)
  have rows1: "rows1 = P @ map (shifted c) S @ v # R"
    using refresh_catchup_rows [of j c i rows ev] inv lo i r1 dr
    by (simp add: refresh_inv_def P_def S_def)
  show vi: "rows1 ! i = rows ! i" using rows1 l by (simp add: nth_append v_def)
  define A where "A = P @ map (shifted c) S @ [v']"
  have upd: "rows1[i := v'] = A @ R"
    unfolding rows1 l(1) [symmetric] by (simp add: list_update_append A_def)
  have len: "length A = Suc i" using l by (simp add: A_def)
  have tk: "take (Suc i) (rows1[i := v']) = A"
    unfolding upd len [symmetric] by simp
  have nnp: "0 \<le> sum_list (map height P)" "0 \<le> sum_list (map height S)"
    "0 \<le> sum_list (map height R)" "0 \<le> height v"
    using nn by (subst (asm) rows, auto intro!: sum_list_nonneg simp: list_all_iff)+
  have s0: "sum_list (map height rows) =
      sum_list (map height P) + sum_list (map height S) + height v + sum_list (map height R)"
    by (subst rows) simp
  have sA: "sum_list (map height A) = sum_list (map height P) + sum_list (map height S) + nh"
    by (simp add: A_def v')
  have s1: "sum_list (map height (rows1[i := v'])) =
      sum_list (map height P) + sum_list (map height S) + nh + sum_list (map height R)"
    unfolding upd by (simp add: sA)
  have cA': "c \<le> sum_list (map height P)" using cA by (simp add: P_def)
  show "exact (nh - height (rows ! i))"
    using nnp s0 tot nh by (simp add: exact_def v_def [symmetric])
  show "exact (c + (nh - height (rows ! i)))"
    using nnp s0 tot nh cA' old by (simp add: exact_def v_def [symmetric])
  show "list_all (\<lambda>v. 0 \<le> height v) (rows1[i := v'])"
    unfolding upd using nn nh by (subst (asm) rows) (auto simp: A_def v' list_all_iff)
  show "c + (nh - height (rows ! i)) \<le> sum_list (map height (take (Suc i) (rows1[i := v'])))"
    unfolding tk sA using nnp cA' by (simp add: v_def [symmetric])
  show "sum_list (map height (rows1[i := v'])) - (c + (nh - height (rows ! i))) \<le> 2 ^ 53"
    unfolding s1 using old s0 by (simp add: v_def [symmetric])
  show "sum_list (map height (rows1[i := v'])) \<le> sum_list (map height rows) + nh"
    unfolding s1 s0 using nnp by simp
qed

lemma refresh_scan_fl_eq:
  assumes "map (\<lambda>it. idx (id_str it)) its = map Some ks" and "sorted_wrt (<) ks"
    and "\<forall>k\<in>set ks. lower j \<le> k \<and> k < length rows" and "refresh_inv rows j c"
    and "list_all (\<lambda>v. 0 \<le> height v) rows"
    and "c \<le> sum_list (map height (take (lower j) rows))"
    and "sum_list (map height rows) - c \<le> 2 ^ 53"
    and "heights_whole its"
    and "sum_list (map height rows) + total_height its \<le> 2 ^ 53"
  shows "refresh_scan_fl its idx rows j c ev = refresh_scan its idx rows j c ev \<and>
     (\<exists>rows' j' c' ev'. refresh_scan its idx rows j c ev = Inr (rows', j', c', ev') \<and>
        refresh_inv rows' j' c' \<and> list_all (\<lambda>v. 0 \<le> height v) rows' \<and>
        sum_list (map height rows') \<le> 2 ^ 53)"
  using assms
proof (induction its arbitrary: ks rows j c ev)
  case Nil
  then show ?case by (simp add: total_height_def)
next
  case (Cons it its)
  then obtain k ks' where ks: "ks = k # ks'" by (cases ks) auto
  have k: "idx (id_str it) = Some k" "lower j \<le> k" "k < length rows"
    using Cons.prems ks by auto
  define nh where "nh = getHeight it"
  have hw: "heights_whole its" and nh: "0 \<le> nh"
    using Cons.prems(8) by (simp_all add: heights_whole_def nh_def)
  have R: "0 \<le> total_height its" using hw by (rule total_height_nonneg)
  have th: "total_height (it # its) = nh + total_height its"
    by (simp add: total_height_def nh_def)
  have tot: "sum_list (map height rows) + nh \<le> 2 ^ 53"
    and tot0: "sum_list (map height rows) \<le> 2 ^ 53"
    using Cons.prems(9) R nh unfolding th by simp_all
  have pe: "\<forall>k. lower j \<le> k \<and> k < length rows \<longrightarrow> exact (top_px (rows ! k) + c)"
    using refresh_pending_exact [OF Cons.prems(4,5) tot0] by blast
  obtain rows1 ev1 where cu: "refresh_catchup c j k (rows, ev) = (rows1, ev1)"
    by (cases "refresh_catchup c j k (rows, ev)")
  have cuf: "refresh_catchup_fl c j k (rows, ev) = (rows1, ev1)"
    using refresh_catchup_fl_eq [OF pe] cu by simp
  have r1: "rows1 = fst (refresh_catchup c j k (rows, ev))" using cu by simp
  then have l1: "length rows1 = length rows" by simp
  define v' where "v' = (rows1 ! k)\<lparr>top_px := top_px (rows1 ! k) + c, height := nh\<rparr>"
  define c' where "c' = c + (nh - height (rows1 ! k))"
  define ev' where "ev' = ev1 @ [OnRefreshItem v' True]"
  note ss = refresh_step_safe [OF Cons.prems(4) k(2,3) Cons.prems(5,6,7) nh tot r1 v'_def]
  have e1: "exact (top_px (rows1 ! k) + c)" using pe k ss(1) by simp
  have e2: "exact (nh - height (rows1 ! k))" "exact (c + (nh - height (rows1 ! k)))"
    using ss(2,3) by (simp_all add: ss(1))
  have step: "refresh_scan (it # its) idx rows j c ev =
              refresh_scan its idx (rows1[k := v']) (Some (Suc k)) c' ev'"
    using k cu l1 by (simp add: Let_def v'_def c'_def ev'_def nh_def)
  have stepf: "refresh_scan_fl (it # its) idx rows j c ev =
              refresh_scan_fl its idx (rows1[k := v']) (Some (Suc k)) c' ev'"
    using k cuf l1 e1 e2 by (simp add: Let_def v'_def c'_def ev'_def nh_def [symmetric])
  note st = refresh_step [OF Cons.prems(4) k(2,3) r1 v'_def]
  have inv': "refresh_inv (rows1[k := v']) (Some (Suc k)) c'"
    using st(1) by (simp add: c'_def)
  have m: "map (\<lambda>it. idx (id_str it)) its = map Some ks'" using Cons.prems(1) ks by simp
  have s: "sorted_wrt (<) ks'" using Cons.prems(2) ks by simp
  have b: "\<forall>k'\<in>set ks'. lower (Some (Suc k)) \<le> k' \<and> k' < length (rows1[k := v'])"
    using Cons.prems(2,3) ks l1 by (auto simp: lower_def)
  have p5: "list_all (\<lambda>v. 0 \<le> height v) (rows1[k := v'])" by (rule ss(4))
  have p6: "c' \<le> sum_list (map height (take (lower (Some (Suc k))) (rows1[k := v'])))"
    using ss(5) by (simp add: c'_def ss(1) lower_def)
  have p7: "sum_list (map height (rows1[k := v'])) - c' \<le> 2 ^ 53"
    using ss(6) by (simp add: c'_def ss(1))
  have p9: "sum_list (map height (rows1[k := v'])) + total_height its \<le> 2 ^ 53"
    using ss(7) Cons.prems(9) unfolding th by simp
  show ?case
    unfolding step stepf by (rule Cons.IH [OF m s b inv' p5 p6 p7 hw p9])
qed

lemma onRefreshItems_fl_eq:
  assumes s: "safe h" and v: "index_valid h" and a: "ascending_present h its"
    and hw: "heights_whole its" and tot: "getTotalHeight h + total_height its \<le> 2 ^ 53"
  shows "onRefreshItems_fl its h = onRefreshItems its h"
    and "safe (hm (onRefreshItems its h))"
proof -
  let ?ks = "map (\<lambda>it. the (indexes h (id_str it))) its"
  have c: "contiguous h" and nn: "list_all (\<lambda>v. 0 \<le> height v) (heightMap h)"
    using s by (simp_all add: safe_def extents_nonneg_def)
  have t: "getTotalHeight h = sum_list (map height (heightMap h))"
    using c by (rule getTotalHeight_sum)
  have m: "map (\<lambda>it. indexes h (id_str it)) its = map Some ?ks"
    using a by (auto simp: ascending_present_def list_all_iff)
  have so: "sorted_wrt (<) ?ks" using a by (simp add: ascending_present_def)
  have b: "\<forall>k\<in>set ?ks. lower None \<le> k \<and> k < length (heightMap h)"
    using a v by (auto simp: ascending_present_def list_all_iff index_valid_def lower_def)
  have i0: "refresh_inv (heightMap h) None 0"
    using c by (simp add: refresh_inv_init contiguous_def)
  have p6: "0 \<le> sum_list (map height (take (lower None) (heightMap h)))"
    by (simp add: lower_def)
  have p7: "sum_list (map height (heightMap h)) - 0 \<le> 2 ^ 53"
    using tot total_height_nonneg [OF hw] t by simp
  have p9: "sum_list (map height (heightMap h)) + total_height its \<le> 2 ^ 53"
    using tot t by simp
  obtain rows' j' c' ev' where
    scf: "refresh_scan_fl its (indexes h) (heightMap h) None 0 [] =
          refresh_scan its (indexes h) (heightMap h) None 0 []"
    and sc: "refresh_scan its (indexes h) (heightMap h) None 0 [] = Inr (rows', j', c', ev')"
    and inv: "refresh_inv rows' j' c'" and nn': "list_all (\<lambda>v. 0 \<le> height v) rows'"
    and tot': "sum_list (map height rows') \<le> 2 ^ 53"
    using refresh_scan_fl_eq [OF m so b i0 nn p6 p7 hw p9, of "[]"] by blast
  have pe: "\<forall>k. lower j' \<le> k \<and> k < length rows' \<longrightarrow> exact (top_px (rows' ! k) + c')"
    using refresh_pending_exact [OF inv nn' tot'] by blast
  obtain rows2 ev2 where cu: "refresh_catchup c' j' (length rows') (rows', ev') = (rows2, ev2)"
    by (cases "refresh_catchup c' j' (length rows') (rows', ev')")
  have cuf: "refresh_catchup_fl c' j' (length rows') (rows', ev') = (rows2, ev2)"
    using refresh_catchup_fl_eq [OF pe] cu by simp
  have r2: "rows2 = fst (refresh_catchup c' j' (length rows') (rows', ev'))" using cu by simp
  have e: "onRefreshItems its h =
       \<lparr>returned = Inr (), hm = h\<lparr>heightMap := rows2\<rparr>, emitted = ev2, console = [], unread = []\<rparr>"
    by (simp add: onRefreshItems_def sc cu)
  have ef: "onRefreshItems_fl its h =
       \<lparr>returned = Inr (), hm = h\<lparr>heightMap := rows2\<rparr>, emitted = ev2, console = [], unread = []\<rparr>"
    by (simp add: onRefreshItems_fl_def scf sc cuf)
  show "onRefreshItems_fl its h = onRefreshItems its h" by (simp only: e ef)
  have h2: "map height rows2 = map height rows'" unfolding r2 by simp
  have c2: "contiguous_from 0 rows2" using refresh_final(1) [OF inv, of ev'] by (simp add: r2)
  have n2: "list_all (\<lambda>v. 0 \<le> height v) rows2" using nn' by (simp only: nonneg_map h2)
  have "contiguous (h\<lparr>heightMap := rows2\<rparr>)" using c2 by (simp add: contiguous_def)
  then have "getTotalHeight (h\<lparr>heightMap := rows2\<rparr>) = sum_list (map height rows')"
    using getTotalHeight_sum [of "h\<lparr>heightMap := rows2\<rparr>"] h2 by simp
  then show "safe (hm (onRefreshItems its h))"
    using c2 n2 tot' by (simp add: e safe_def contiguous_def extents_nonneg_def)
qed

lemma height_new_rows [simp]: "map height (new_rows b its) = map getHeight its"
  by (induction its arbitrary: b) auto

lemma safe_rows:
  "safe h \<longleftrightarrow> contiguous_from 0 (heightMap h) \<and> list_all (\<lambda>v. 0 \<le> height v) (heightMap h) \<and>
     sum_list (map height (heightMap h)) \<le> 2 ^ 53"
  using getTotalHeight_sum [of h] by (auto simp: safe_def contiguous_def extents_nonneg_def)

lemma insert_safe:
  assumes s: "safe h" and v: "index_valid h" and a: "anchor_present h afterItemId"
    and hw: "heights_whole its" and tot: "getTotalHeight h + total_height its \<le> 2 ^ 53"
  shows "safe (hm (onInsertItems its afterItemId h))"
proof -
  let ?rows = "heightMap h"
  have c: "contiguous h" and nn: "list_all (\<lambda>v. 0 \<le> height v) ?rows"
    using s by (simp_all add: safe_def extents_nonneg_def)
  obtain i0 base where an: "insert_anchor h afterItemId = Some (i0, base)"
    using a v by (cases afterItemId) (auto simp: anchor_present_def insert_anchor_def index_valid_def)
  define P where "P = take i0 ?rows"
  define T where "T = drop i0 ?rows"
  have rows: "?rows = P @ T" by (simp add: P_def T_def)
  have e: "heightMap (hm (onInsertItems its afterItemId h)) =
           P @ new_rows base its @ map (shifted (total_height its)) T"
    by (simp add: onInsertItems_eq [OF an] P_def T_def)
  have t: "getTotalHeight h = sum_list (map height P) + sum_list (map height T)"
    unfolding getTotalHeight_sum [OF c] by (subst rows) simp
  have nn': "list_all (\<lambda>v. 0 \<le> height v) (P @ new_rows base its @ map (shifted (total_height its)) T)"
    using nn hw unfolding nonneg_map by (subst (asm) rows) (auto simp: heights_whole_def list_all_iff)
  have c': "contiguous_from 0 (heightMap (hm (onInsertItems its afterItemId h)))"
    using insert_preserves [OF c v a, of its] by (simp add: contiguous_def)
  show ?thesis
    unfolding safe_rows using c' nn' tot unfolding e t by (simp add: total_height_def)
qed

lemma remove_safe:
  assumes s: "safe h" and v: "index_valid h" and r: "contiguous_run h xs"
  shows "safe (hm (onRemoveItems xs h))"
proof -
  let ?rows = "heightMap h"
  let ?eff = "takeWhile (\<lambda>x. x \<noteq> []) xs"
  let ?n = "length ?eff"
  have c: "contiguous h" and nn: "list_all (\<lambda>v. 0 \<le> height v) ?rows"
    and tot: "sum_list (map height ?rows) \<le> 2 ^ 53"
    using s by (simp_all add: safe_rows contiguous_def)
  obtain s0 where m: "map (indexes h) ?eff = map Some [s0..<s0 + ?n]"
    and len: "s0 + ?n \<le> length ?rows"
    using contiguous_run_effective [OF r v] by blast
  have ne: "[] \<notin> set ?eff" by (auto dest: set_takeWhileD)
  have d: "distinct ?eff" using distinct_map [of "indexes h" ?eff] m by (simp add: distinct_map)
  have b: "\<forall>k\<in>set [s0..<s0 + ?n]. k < length ?rows" using len by auto
  define P where "P = take s0 ?rows"
  define M where "M = take ?n (drop s0 ?rows)"
  define T where "T = drop (s0 + ?n) ?rows"
  have rows: "?rows = P @ M @ T"
    unfolding P_def M_def T_def by (metis append_take_drop_id drop_drop add.commute)
  have nth: "map (\<lambda>k. height (?rows ! k)) [s0..<s0 + ?n] = map height M"
    unfolding M_def using len by (intro nth_equalityI) (auto simp: nth_map_upt)
  have c': "contiguous_from 0 (heightMap (hm (onRemoveItems xs h)))"
    using remove_preserves [OF c v r] by (simp add: contiguous_def)
  show ?thesis
  proof (cases "sum_list (map height M) = 0")
    case True
    have "hm (onRemoveItems ?eff h) = h\<lparr>indexes := indexes h |` (- set ?eff)\<rparr>"
      using onRemoveItems_zero [OF m d ne b] True nth by simp
    then show ?thesis
      using s by (simp add: onRemoveItems_takeWhile [of xs] safe_rows)
  next
    case False
    have nz: "sum_list (map height (take ?n (drop s0 ?rows))) \<noteq> 0" using False by (simp add: M_def)
    have e: "heightMap (hm (onRemoveItems xs h)) =
             P @ map (shifted (- sum_list (map height M))) T"
      unfolding onRemoveItems_takeWhile [of xs] onRemoveItems_eq [OF m ne len nz]
      by (simp add: P_def M_def T_def)
    have nnM: "0 \<le> sum_list (map height M)"
      using nn by (subst (asm) rows) (auto intro!: sum_list_nonneg simp: list_all_iff)
    have nn': "list_all (\<lambda>v. 0 \<le> height v) (P @ map (shifted (- sum_list (map height M))) T)"
      using nn unfolding nonneg_map by (subst (asm) rows) (auto simp: list_all_iff)
    have "sum_list (map height ?rows) =
          sum_list (map height P) + sum_list (map height M) + sum_list (map height T)"
      by (subst rows) simp
    then show ?thesis
      unfolding safe_rows using c' nn' tot nnM unfolding e by simp
  qed
qed

lemma safe_new: "safe new_HeightMap"
  by (simp add: safe_rows new_HeightMap_def)

lemma reachable_fl_sound: "reachable_fl h \<Longrightarrow> reachable h \<and> safe h"
proof (induction rule: reachable_fl.induct)
  case initial
  show ?case using reachable.initial safe_new by simp
next
  case (insert h afterItemId its)
  then have r: "reachable h" and s: "safe h" by simp_all
  have v: "index_valid h" using reachable_invariants [OF r] by simp
  have e: "onInsertItems_fl its afterItemId h = onInsertItems its afterItemId h"
    using onInsertItems_fl_eq [OF s insert.hyps(3,4)] .
  show ?case
    unfolding e using reachable.insert [OF r insert.hyps(2)] insert_safe [OF s v insert.hyps(2,3,4)]
    by simp
next
  case (remove h xs)
  then have r: "reachable h" and s: "safe h" by simp_all
  have v: "index_valid h" using reachable_invariants [OF r] by simp
  show ?case
    unfolding onRemoveItems_fl_eq [OF s v remove.hyps(2)]
    using reachable.remove [OF r remove.hyps(2)] remove_safe [OF s v remove.hyps(2)] by simp
next
  case (refresh h its)
  then have r: "reachable h" and s: "safe h" by simp_all
  have v: "index_valid h" using reachable_invariants [OF r] by simp
  note e = onRefreshItems_fl_eq [OF s v refresh.hyps(2,3,4)]
  show ?case
    unfolding e(1) using reachable.refresh [OF r refresh.hyps(2)] e(2) by simp
qed

lemma scenario_A_safe: "safe scenario_A"
  by (simp add: safe_rows scenario_A_def)

lemma two_rows_insert:
  "hm (onInsertItems_fl [item_a1, item_b1] None new_HeightMap) = two_rows"
  by (simp add: onInsertItems_fl_def insert_anchor_fl_def createViewItem_def splice_def
      new_HeightMap_def two_rows_def item_a1_def item_b1_def exact_def Let_def)

lemma three_rows_insert:
  "hm (onInsertItems_fl [item_x_big] (Some ''a'') two_rows) = three_rows"
  by (simp add: onInsertItems_fl_def insert_anchor_fl_def insert_shift_fl_def createViewItem_def
      splice_def two_rows_def three_rows_def item_a1_def item_b1_def item_x_big_def exact_def
      fl_tie Let_def upt_rec numeral_2_eq_2 fun_eq_iff)

lemma three_rows_remove:
  "heightMap (hm (onRemoveItems_fl [''x''] three_rows)) =
     [\<lparr>model = item_a1, top_px = 0, height = 1\<rparr>, \<lparr>model = item_b1, top_px = 0, height = 1\<rparr>]"
  by (simp add: onRemoveItems_fl_def remove_shift_fl_def splice_def three_rows_def exact_def
      Let_def upt_rec)

text \<open>
  C1, within the range of exact whole numbers. In every state reached from the empty map
  by insertions (anchor none or present in the index), removals (of identities whose index
  entries form an ascending run of slots) and refreshes (of items with index entries, in
  strictly ascending slot order, so no item twice), where the heights given to an insertion
  or a refresh are whole numbers, not negative, that add up with the total before the call
  to at most \<open>2 ^ 53\<close>, the first row starts at 0 and every row starts where the row before
  it ends.
\<close>

theorem reachable_fl_contiguous:
  assumes "reachable_fl h"
  shows "(heightMap h \<noteq> [] \<longrightarrow> top_px (heightMap h ! 0) = 0) \<and>
         (\<forall>k. Suc k < length (heightMap h) \<longrightarrow>
            top_px (heightMap h ! Suc k) = top_px (heightMap h ! k) + height (heightMap h ! k))"
  using reachable_fl_sound [OF assms] contiguous_from_nth_iff [of 0 "heightMap h"]
  by (simp add: safe_def contiguous_def)

theorem reachable_fl_contiguous_witness:
  "reachable_fl scenario_A \<and> reachable_fl scenario_B \<and> reachable_fl scenario_C \<and>
   top_px (heightMap scenario_B ! 0) = 0 \<and>
   top_px (heightMap scenario_B ! 1) = top_px (heightMap scenario_B ! 0) + height (heightMap scenario_B ! 0) \<and>
   top_px (heightMap scenario_B ! 2) = top_px (heightMap scenario_B ! 1) + height (heightMap scenario_B ! 1)"
proof -
  have a0: "anchor_present new_HeightMap None" by (simp add: anchor_present_def)
  have w0: "heights_whole [item_a, item_b, item_c]"
    by (simp add: heights_whole_def item_a_def item_b_def item_c_def)
  have b0: "getTotalHeight new_HeightMap + total_height [item_a, item_b, item_c] \<le> 2 ^ 53"
    by (simp add: getTotalHeight_def new_HeightMap_def total_height_def item_a_def item_b_def
        item_c_def)
  have "reachable_fl (hm (onInsertItems_fl [item_a, item_b, item_c] None new_HeightMap))"
    by (rule reachable_fl.insert [OF reachable_fl.initial a0 w0 b0])
  then have A: "reachable_fl scenario_A"
    by (simp only: onInsertItems_fl_eq [OF safe_new w0 b0] scenario_A_insert)
  have v: "index_valid scenario_A"
    by (simp add: index_valid_def scenario_A_def row_id_def split: if_splits)
  have a1: "ascending_present scenario_A [item_b5]"
    by (simp add: ascending_present_def scenario_A_def item_b5_def)
  have w1: "heights_whole [item_b5]" by (simp add: heights_whole_def item_b5_def)
  have b1: "getTotalHeight scenario_A + total_height [item_b5] \<le> 2 ^ 53"
    by (simp add: scenario_A_total total_height_def item_b5_def)
  have "reachable_fl (hm (onRefreshItems_fl [item_b5] scenario_A))"
    by (rule reachable_fl.refresh [OF A a1 w1 b1])
  then have B: "reachable_fl scenario_B"
    by (simp only: onRefreshItems_fl_eq(1) [OF scenario_A_safe v a1 w1 b1] scenario_B_refresh)
  have r: "contiguous_run scenario_A [''a'', ''b'']"
    by (simp add: contiguous_run_def scenario_A_def upt_rec)
  have "reachable_fl (hm (onRemoveItems_fl [''a'', ''b''] scenario_A))"
    by (rule reachable_fl.remove [OF A r])
  then have C: "reachable_fl scenario_C"
    by (simp only: onRemoveItems_fl_eq [OF scenario_A_safe v r] scenario_C_remove)
  have l: "heightMap scenario_B \<noteq> []" "Suc 0 < length (heightMap scenario_B)"
    "Suc 1 < length (heightMap scenario_B)"
    by (simp_all add: scenario_B_def)
  note t = reachable_fl_contiguous [OF B]
  have "top_px (heightMap scenario_B ! 0) = 0" using t l(1) by blast
  moreover have "top_px (heightMap scenario_B ! Suc 0) =
      top_px (heightMap scenario_B ! 0) + height (heightMap scenario_B ! 0)"
    using t l(2) by blast
  moreover have "top_px (heightMap scenario_B ! Suc 1) =
      top_px (heightMap scenario_B ! 1) + height (heightMap scenario_B ! 1)"
    using t l(3) by blast
  ultimately show ?thesis using A B C by (simp add: numeral_2_eq_2)
qed

text \<open>
  C1 as stated fails: without these bounds contiguity is lost. Two rows \<open>a\<close> and \<open>b\<close>
  of height 1 are inserted into the empty map, a row \<open>x\<close> of height \<open>2 ^ 53\<close> is
  inserted after \<open>a\<close>, which moves \<open>b\<close> to the double nearest to \<open>2 ^ 53 + 1\<close>, that
  is \<open>2 ^ 53\<close>, and \<open>x\<close> is removed again: \<open>b\<close> is then at offset 0, where \<open>a\<close> is,
  and not at 1. And an item given twice to one refresh is in ascending slot order: the row
  \<open>a\<close> of Scenario A, refreshed twice in one call to the height 20, ends at offset 10,
  and no row starts at 0.
\<close>

theorem reachable_fl_contiguous_counterexample:
  "anchor_present new_HeightMap None \<and>
   hm (onInsertItems_fl [item_a1, item_b1] None new_HeightMap) = two_rows \<and>
   anchor_present two_rows (Some ''a'') \<and>
   hm (onInsertItems_fl [item_x_big] (Some ''a'') two_rows) = three_rows \<and>
   contiguous_run three_rows [''x''] \<and>
   heightMap (hm (onRemoveItems_fl [''x''] three_rows)) =
     [\<lparr>model = item_a1, top_px = 0, height = 1\<rparr>, \<lparr>model = item_b1, top_px = 0, height = 1\<rparr>] \<and>
   top_px (heightMap (hm (onRemoveItems_fl [''x''] three_rows)) ! 1) \<noteq>
     top_px (heightMap (hm (onRemoveItems_fl [''x''] three_rows)) ! 0) +
     height (heightMap (hm (onRemoveItems_fl [''x''] three_rows)) ! 0) \<and>
   ascending_as_claimed scenario_A [item_a20, item_a20] \<and>
   heightMap (hm (onRefreshItems_fl [item_a20, item_a20] scenario_A)) =
     [\<lparr>model = \<lparr>id_str = ''a'', getHeight = 10\<rparr>, top_px = 10, height = 20\<rparr>,
      \<lparr>model = \<lparr>id_str = ''b'', getHeight = 20\<rparr>, top_px = 20, height = 20\<rparr>,
      \<lparr>model = \<lparr>id_str = ''c'', getHeight = 30\<rparr>, top_px = 40, height = 30\<rparr>] \<and>
   top_px (heightMap (hm (onRefreshItems_fl [item_a20, item_a20] scenario_A)) ! 0) \<noteq> 0"
proof -
  have p: "anchor_present new_HeightMap None" "anchor_present two_rows (Some ''a'')"
    "contiguous_run three_rows [''x'']"
    by (simp_all add: anchor_present_def contiguous_run_def two_rows_def three_rows_def)
  have a: "ascending_as_claimed scenario_A [item_a20, item_a20]"
    by (simp add: ascending_as_claimed_def scenario_A_def item_a20_def)
  have r: "heightMap (hm (onRefreshItems_fl [item_a20, item_a20] scenario_A)) =
     [\<lparr>model = \<lparr>id_str = ''a'', getHeight = 10\<rparr>, top_px = 10, height = 20\<rparr>,
      \<lparr>model = \<lparr>id_str = ''b'', getHeight = 20\<rparr>, top_px = 20, height = 20\<rparr>,
      \<lparr>model = \<lparr>id_str = ''c'', getHeight = 30\<rparr>, top_px = 40, height = 30\<rparr>]"
    by (simp add: onRefreshItems_fl_def refresh_catchup_fl_def refresh_shift_fl_def scenario_A_def
        item_a20_def exact_def Let_def upt_rec)
  have n: "top_px (heightMap (hm (onRemoveItems_fl [''x''] three_rows)) ! 1) \<noteq>
      top_px (heightMap (hm (onRemoveItems_fl [''x''] three_rows)) ! 0) +
      height (heightMap (hm (onRemoveItems_fl [''x''] three_rows)) ! 0)"
    "top_px (heightMap (hm (onRefreshItems_fl [item_a20, item_a20] scenario_A)) ! 0) \<noteq> 0"
    unfolding three_rows_remove r by simp_all
  show ?thesis
    using p a n by (simp only: two_rows_insert three_rows_insert three_rows_remove r simp_thms)
qed

end
